theory Spec2Isabelle
  imports Main "HOL-Library.Word"
begin

unbundle bit_operations_syntax

section \<open>Transposition table of jackfish (tp.js)\<close>

text \<open>
  The module \<^verbatim>\<open>src/jackfish/tp.js\<close> holds the Zobrist key table \<^verbatim>\<open>hashes\<close>, the
  function \<^verbatim>\<open>hash\<close> and the two caches \<^verbatim>\<open>LRU\<close> and \<^verbatim>\<open>Cache\<close>. The caches come first.

  A hash is the JavaScript array \<^verbatim>\<open>[low, high]\<close> of two numbers. The caches use the two
  numbers only as keys (of a \<^verbatim>\<open>Map\<close> and of array properties), so they are integers here.
  An entry is \<^verbatim>\<open>Move | number\<close> (the number a score, an integer here); the caches never
  look inside one, so they are polymorphic in the entry type, and \<^verbatim>\<open>undefined\<close> (no
  entry) is \<open>None\<close>.
\<close>

subsection \<open>Entries and operations\<close>

datatype 'm Entry = Move 'm | Score int

datatype 'e op = OpGet "int \<times> int" | OpAdd "int \<times> int" 'e

fun op_low :: "'e op \<Rightarrow> int" where
  "op_low (OpGet hash) = fst hash"
| "op_low (OpAdd hash val) = fst hash"

subsection \<open>The JavaScript Map: keys in insertion order\<close>

text \<open>
  A \<^verbatim>\<open>Map\<close> iterates its keys in insertion order; \<^verbatim>\<open>set\<close> on a key that is present keeps the
  key's place, \<^verbatim>\<open>set\<close> on a new key appends it, \<^verbatim>\<open>delete\<close> removes the key, and
  \<^verbatim>\<open>keys().next().value\<close> is the first key, or \<^verbatim>\<open>undefined\<close> on an empty map.
\<close>

definition Map_get :: "('k \<times> 'v) list \<Rightarrow> 'k \<Rightarrow> 'v option" where
  "Map_get m k = map_of m k"

fun Map_set :: "('k \<times> 'v) list \<Rightarrow> 'k \<Rightarrow> 'v \<Rightarrow> ('k \<times> 'v) list" where
  "Map_set [] k v = [(k, v)]"
| "Map_set (p # m) k v = (if fst p = k then (k, v) # m else p # Map_set m k v)"

definition Map_delete :: "('k \<times> 'v) list \<Rightarrow> 'k \<Rightarrow> ('k \<times> 'v) list" where
  "Map_delete m k = filter (\<lambda>p. fst p \<noteq> k) m"

definition Map_size :: "('k \<times> 'v) list \<Rightarrow> int" where
  "Map_size m = int (length m)"

definition Map_first_key :: "('k \<times> 'v) list \<Rightarrow> 'k option" where
  "Map_first_key m = (case m of [] \<Rightarrow> None | p # _ \<Rightarrow> Some (fst p))"

definition Map_keys :: "('k \<times> 'v) list \<Rightarrow> 'k list" where
  "Map_keys m = map fst m"

subsection \<open>class LRU\<close>

text \<open>
  \<^verbatim>\<open>map: Map<number, Array<Entry>>\<close> and \<^verbatim>\<open>maxSize\<close>. The array stored at a key is written
  and read at \<^verbatim>\<open>arr[high]\<close> only, where \<^verbatim>\<open>high\<close> may be negative (then a property of the
  array object): a partial map from integers to entries.
\<close>

record 'e LRU =
  LRU_map :: "(int \<times> (int \<rightharpoonup> 'e)) list"
  LRU_maxSize :: int

definition LRU_constructor :: "int \<Rightarrow> 'e LRU" where
  "LRU_constructor maxSize = \<lparr>LRU_map = [], LRU_maxSize = maxSize\<rparr>"

definition LRU_size :: "'e LRU \<Rightarrow> int" where
  "LRU_size s = Map_size (LRU_map s)"

definition LRU_get :: "'e LRU \<Rightarrow> int \<times> int \<Rightarrow> 'e option \<times> 'e LRU" where
  "LRU_get s hash =
     (let low = fst hash; high = snd hash in
      case Map_get (LRU_map s) low of
        Some arr \<Rightarrow>
          (arr high, s\<lparr>LRU_map := Map_set (Map_delete (LRU_map s) low) low arr\<rparr>)
      | None \<Rightarrow> (None, s))"

definition LRU_add :: "'e LRU \<Rightarrow> int \<times> int \<Rightarrow> 'e \<Rightarrow> 'e LRU" where
  "LRU_add s hash val =
     (let low = fst hash; high = snd hash;
          m1 = (case Map_get (LRU_map s) low of
                  Some arr \<Rightarrow> Map_set (Map_delete (LRU_map s) low) low (arr(high \<mapsto> val))
                | None \<Rightarrow> Map_set (LRU_map s) low (Map.empty(high \<mapsto> val)));
          m2 = (if Map_size m1 > LRU_maxSize s
                then (case Map_first_key m1 of Some k \<Rightarrow> Map_delete m1 k | None \<Rightarrow> m1)
                else m1)
      in s\<lparr>LRU_map := m2\<rparr>)"

text \<open>A caller's sequence of calls on one cache, results of the gets dropped.\<close>

fun LRU_step :: "'e LRU \<Rightarrow> 'e op \<Rightarrow> 'e LRU" where
  "LRU_step s (OpGet hash) = snd (LRU_get s hash)"
| "LRU_step s (OpAdd hash val) = LRU_add s hash val"

definition LRU_run :: "'e LRU \<Rightarrow> 'e op list \<Rightarrow> 'e LRU" where
  "LRU_run s ops = foldl LRU_step s ops"

text \<open>
  How long ago the group \<open>k\<close> was last named by a call: the number of calls made since
  the last one whose hash has the low part \<open>k\<close> (the number of all calls when there is
  none). The least recently touched group is the one of greatest age.
\<close>

definition age :: "'e op list \<Rightarrow> int \<Rightarrow> nat" where
  "age ops k = length (takeWhile (\<lambda>l. l \<noteq> k) (rev (map op_low ops)))"

subsection \<open>class Cache\<close>

text \<open>
  \<^verbatim>\<open>cache: Array<Array<Entry>>\<close>, read and written at \<^verbatim>\<open>cache[low][high]\<close> only, is a
  two-level partial map; \<^verbatim>\<open>this.cache = []\<close> is the empty one.
\<close>

record 'e Cache =
  Cache_cache :: "int \<rightharpoonup> (int \<rightharpoonup> 'e)"
  Cache_maxSize :: int
  Cache_currentSize :: int

definition Cache_constructor :: "int \<Rightarrow> 'e Cache" where
  "Cache_constructor size' =
     \<lparr>Cache_cache = Map.empty, Cache_maxSize = size', Cache_currentSize = 0\<rparr>"

definition Cache_size :: "'e Cache \<Rightarrow> int" where
  "Cache_size c = Cache_currentSize c"

definition Cache_get :: "'e Cache \<Rightarrow> int \<times> int \<Rightarrow> 'e option" where
  "Cache_get c hash =
     (let low = fst hash; high = snd hash in
      case Cache_cache c low of Some arr \<Rightarrow> arr high | None \<Rightarrow> None)"

definition Cache_add :: "'e Cache \<Rightarrow> int \<times> int \<Rightarrow> 'e \<Rightarrow> 'e Cache" where
  "Cache_add c hash val =
     (let low = fst hash; high = snd hash;
          c1 = (if Cache_currentSize c = Cache_maxSize c
                then c\<lparr>Cache_cache := Map.empty, Cache_currentSize := 0\<rparr>
                else c)
      in case Cache_cache c1 low of
           Some arr \<Rightarrow>
             c1\<lparr>Cache_cache := (Cache_cache c1)(low \<mapsto> arr(high \<mapsto> val)),
                Cache_currentSize :=
                  (if arr high = None then Cache_currentSize c1 + 1 else Cache_currentSize c1)\<rparr>
         | None \<Rightarrow>
             c1\<lparr>Cache_cache := (Cache_cache c1)(low \<mapsto> Map.empty(high \<mapsto> val)),
                Cache_currentSize := Cache_currentSize c1 + 1\<rparr>)"

fun Cache_step :: "'e Cache \<Rightarrow> 'e op \<Rightarrow> 'e Cache" where
  "Cache_step c (OpGet hash) = c"
| "Cache_step c (OpAdd hash val) = Cache_add c hash val"

definition Cache_run :: "'e Cache \<Rightarrow> 'e op list \<Rightarrow> 'e Cache" where
  "Cache_run c ops = foldl Cache_step c ops"

text \<open>The (low, high) slots that hold an entry.\<close>

definition slots :: "'e Cache \<Rightarrow> (int \<times> int) set" where
  "slots c = {(low, high). \<exists>arr. Cache_cache c low = Some arr \<and> arr high \<noteq> None}"

subsection \<open>Invariants of the two caches\<close>

text \<open>
  The map of an LRU after the first half of \<^verbatim>\<open>add\<close> (the group written and moved to
  the end), before the size check.
\<close>

definition inserted :: "(int \<times> (int \<rightharpoonup> 'e)) list \<Rightarrow> int \<times> int \<Rightarrow> 'e \<Rightarrow> (int \<times> (int \<rightharpoonup> 'e)) list" where
  "inserted m hash val =
     Map_delete m (fst hash) @
       [(fst hash, (case Map_get m (fst hash) of Some arr \<Rightarrow> arr | None \<Rightarrow> Map.empty)(snd hash \<mapsto> val))]"

text \<open>
  The keys of an LRU are distinct and in the order of their last touch, oldest first,
  and a map that is not empty has at most \<^verbatim>\<open>maxSize\<close> keys.
\<close>

definition LRU_inv :: "'e op list \<Rightarrow> 'e LRU \<Rightarrow> bool" where
  "LRU_inv ops s \<longleftrightarrow>
     distinct (Map_keys (LRU_map s)) \<and>
     sorted_wrt (\<lambda>a b. age ops b < age ops a) (Map_keys (LRU_map s)) \<and>
     (LRU_map s = [] \<or> int (length (LRU_map s)) \<le> LRU_maxSize s)"

text \<open>The counter of a Cache is the number of its occupied slots.\<close>

definition Cache_inv :: "'e Cache \<Rightarrow> bool" where
  "Cache_inv c \<longleftrightarrow> finite (slots c) \<and> Cache_currentSize c = int (card (slots c))"

text \<open>
  What \<^verbatim>\<open>new LRU(maxSize)\<close> and \<^verbatim>\<open>new Cache(size)\<close> give: the object, or an exception.
  Neither constructor body has a \<^verbatim>\<open>throw\<close>; each stores its argument and returns.
\<close>

datatype error = TypeError

definition new_LRU :: "int \<Rightarrow> error + 'e LRU" where
  "new_LRU maxSize = Inr (LRU_constructor maxSize)"

definition new_Cache :: "int \<Rightarrow> error + 'e Cache" where
  "new_Cache size' = Inr (Cache_constructor size')"

text \<open>Every entry held by a cache was the argument of an earlier add at its hash.\<close>

definition LRU_stored :: "'e op list \<Rightarrow> 'e LRU \<Rightarrow> bool" where
  "LRU_stored ops s \<longleftrightarrow>
     (\<forall>p\<in>set (LRU_map s). \<forall>h v. snd p h = Some v \<longrightarrow> OpAdd (fst p, h) v \<in> set ops)"

definition Cache_stored :: "'e op list \<Rightarrow> 'e Cache \<Rightarrow> bool" where
  "Cache_stored ops c \<longleftrightarrow> (\<forall>hash v. Cache_get c hash = Some v \<longrightarrow> OpAdd hash v \<in> set ops)"

section \<open>Zobrist hashing\<close>

subsection \<open>Keys, the generator and the table\<close>

text \<open>
  A key is the array \<^verbatim>\<open>[low, high]\<close> that \<^verbatim>\<open>make()\<close> returns: two integers from
  \<^verbatim>\<open>rand()\<close>, each in the signed 32-bit range; \<^verbatim>\<open>^=\<close> works on such integers and
  gives one. They are 32-bit words here.

  Modelled from the spec: the Key Generator. \<^verbatim>\<open>random\<close> is the mt19937 engine of the
  library random-js with the seed 27102, a fixed sequence of integers. The sequence is
  the parameter \<open>g\<close>, and the state of the generator is the number of integers drawn.
\<close>

type_synonym key = "32 word \<times> 32 word"

text \<open>
  Modelled from the spec: the constants \<^verbatim>\<open>WHITE\<close> and \<^verbatim>\<open>BLACK\<close> of ./declarations, two
  distinct values. The piece tags of \<^verbatim>\<open>pieces\<close> are the type parameter \<open>'p\<close>; they are
  truthy and none of them is one of the property names turn, wc, bc, epFile.
\<close>

datatype colour = WHITE | BLACK

text \<open>
  The object \<^verbatim>\<open>hashes\<close>. A property that is not set, and an array index out of range,
  read as \<^verbatim>\<open>undefined\<close>: the empty list for an array that was never assigned, \<open>None\<close>
  for an element.
\<close>

record 'p hashes =
  hashes_piece :: "'p \<Rightarrow> key list"
  hashes_turn :: "colour \<Rightarrow> key option"
  hashes_wc :: "key list"
  hashes_bc :: "key list"
  hashes_epFile :: "key list"

text \<open>
  Modelled from the spec: the class Position of ./Position, as far as \<^verbatim>\<open>hash\<close> reads it:
  \<^verbatim>\<open>board\<close> (64 squares, each empty or a piece tag), \<^verbatim>\<open>turn\<close>, the castling rights
  \<^verbatim>\<open>wc\<close> and \<^verbatim>\<open>bc\<close> (queenside, kingside) and \<^verbatim>\<open>ep\<close> (-1 for none). Whatever else a
  position object carries is the extension of the record.
\<close>

record 'p Position =
  board :: "'p option list"
  turn :: colour
  wc :: "bool \<times> bool"
  bc :: "bool \<times> bool"
  ep :: int

text \<open>
  What a call of \<^verbatim>\<open>hash\<close> can reach: the table, the position and its two local
  variables. \<^verbatim>\<open>applyHashes\<close> on \<^verbatim>\<open>undefined\<close> throws a TypeError.
\<close>

record ('p, 'x) hash_state =
  st_hashes :: "'p hashes"
  st_pos :: "('p, 'x) Position_scheme"
  low :: "32 word"
  high :: "32 word"

subsection \<open>Initialisation of the table\<close>

definition rand :: "(nat \<Rightarrow> 32 word) \<Rightarrow> nat \<Rightarrow> 32 word \<times> nat" where
  "rand g n = (g n, Suc n)"

definition make :: "(nat \<Rightarrow> 32 word) \<Rightarrow> nat \<Rightarrow> key \<times> nat" where
  "make g n = (let (a, n1) = rand g n; (b, n2) = rand g n1 in ((a, b), n2))"

text \<open>The loops \<^verbatim>\<open>for (let i = 0; i < k; i++) xs.push(make())\<close>, from an empty array.\<close>

fun makes :: "(nat \<Rightarrow> 32 word) \<Rightarrow> nat \<Rightarrow> nat \<Rightarrow> key list \<times> nat" where
  "makes g 0 n = ([], n)"
| "makes g (Suc k) n =
     (let (x, n1) = make g n; (xs, n2) = makes g k n1 in (x # xs, n2))"

definition hashes_empty :: "'p hashes" where
  "hashes_empty =
     \<lparr>hashes_piece = (\<lambda>p. []), hashes_turn = (\<lambda>c. None), hashes_wc = [], hashes_bc = [],
      hashes_epFile = []\<rparr>"

text \<open>The body of \<^verbatim>\<open>pieces.forEach(p => { ... })\<close>, on the table and the generator.\<close>

definition init_piece :: "(nat \<Rightarrow> 32 word) \<Rightarrow> 'p hashes \<times> nat \<Rightarrow> 'p \<Rightarrow> 'p hashes \<times> nat" where
  "init_piece g s p =
     (let (h, n) = s;
          (ks, n1) = makes g 64 n;
          (tw, n2) = make g n1;
          (tb, n3) = make g n2;
          (wq, n4) = make g n3;
          (wk, n5) = make g n4;
          (bq, n6) = make g n5;
          (bk, n7) = make g n6;
          (es, n8) = makes g 8 n7
      in (h\<lparr>hashes_piece := (hashes_piece h)(p := ks),
            hashes_turn := (\<lambda>c. None)(WHITE \<mapsto> tw, BLACK \<mapsto> tb),
            hashes_wc := [wq, wk],
            hashes_bc := [bq, bk],
            hashes_epFile := es\<rparr>, n8))"

definition hashes_init :: "(nat \<Rightarrow> 32 word) \<Rightarrow> 'p list \<Rightarrow> 'p hashes \<times> nat" where
  "hashes_init g pieces = foldl (init_piece g) (hashes_empty, 0) pieces"

subsection \<open>The function hash\<close>

text \<open>Reading an array at a number that is an integer; \<^verbatim>\<open>a % b\<close> on integers, \<open>b\<close> not 0.\<close>

definition js_index :: "'a list \<Rightarrow> int \<Rightarrow> 'a option" where
  "js_index xs i = (if 0 \<le> i \<and> i < int (length xs) then Some (xs ! nat i) else None)"

definition js_rem :: "int \<Rightarrow> int \<Rightarrow> int" where
  "js_rem a b = sgn a * (\<bar>a\<bar> mod \<bar>b\<bar>)"

definition applyHashes :: "key option \<Rightarrow> ('p, 'x) hash_state \<Rightarrow> error + ('p, 'x) hash_state" where
  "applyHashes lowAndHigh s =
     (case lowAndHigh of
        None \<Rightarrow> Inl TypeError
      | Some k \<Rightarrow> Inr (s\<lparr>low := low s XOR fst k, high := high s XOR snd k\<rparr>))"

text \<open>Statements in sequence; an exception ends the call.\<close>

fun seq :: "('s \<Rightarrow> error + 's) list \<Rightarrow> 's \<Rightarrow> error + 's" where
  "seq [] s = Inr s"
| "seq (f # fs) s = (case f s of Inl e \<Rightarrow> Inl e | Inr s' \<Rightarrow> seq fs s')"

text \<open>The loop over the squares, from the square \<open>i\<close> on.\<close>

function hash_squares :: "nat \<Rightarrow> ('p, 'x) hash_state \<Rightarrow> error + ('p, 'x) hash_state" where
  "hash_squares i s =
     (if i < 64 then
        (case js_index (board (st_pos s)) (int i) of
           Some (Some p) \<Rightarrow>
             (case applyHashes (js_index (hashes_piece (st_hashes s) p) (int i)) s of
                Inl e \<Rightarrow> Inl e
              | Inr s' \<Rightarrow> hash_squares (Suc i) s')
         | _ \<Rightarrow> hash_squares (Suc i) s)
      else Inr s)"
  by pat_completeness auto
termination
  by (relation "measure (\<lambda>(i, s). 64 - i)") auto

declare hash_squares.simps [simp del]

definition hash_body :: "('p, 'x) hash_state \<Rightarrow> error + ('p, 'x) hash_state" where
  "hash_body =
     seq
      [\<lambda>s. applyHashes (hashes_turn (st_hashes s) (turn (st_pos s))) s,
       hash_squares 0,
       \<lambda>s. if fst (wc (st_pos s)) then applyHashes (js_index (hashes_wc (st_hashes s)) 0) s
           else Inr s,
       \<lambda>s. if snd (wc (st_pos s)) then applyHashes (js_index (hashes_wc (st_hashes s)) 1) s
           else Inr s,
       \<lambda>s. if fst (bc (st_pos s)) then applyHashes (js_index (hashes_bc (st_hashes s)) 0) s
           else Inr s,
       \<lambda>s. if snd (bc (st_pos s)) then applyHashes (js_index (hashes_bc (st_hashes s)) 1) s
           else Inr s,
       \<lambda>s. if ep (st_pos s) \<noteq> - 1
           then applyHashes (js_index (hashes_epFile (st_hashes s)) (js_rem (ep (st_pos s)) 8)) s
           else Inr s]"

text \<open>
  A call \<^verbatim>\<open>hash(pos)\<close> with the table \<^verbatim>\<open>hashes\<close>: the state it ends in, and the array
  \<^verbatim>\<open>[low, high]\<close> it returns.
\<close>

definition hash_run :: "'p hashes \<Rightarrow> ('p, 'x) Position_scheme \<Rightarrow> error + ('p, 'x) hash_state" where
  "hash_run hashes pos = hash_body \<lparr>st_hashes = hashes, st_pos = pos, low = 0, high = 0\<rparr>"

definition hash :: "'p hashes \<Rightarrow> ('p, 'x) Position_scheme \<Rightarrow> error + key" where
  "hash hashes pos =
     (case hash_run hashes pos of Inl e \<Rightarrow> Inl e | Inr s \<Rightarrow> Inr (low s, high s))"

subsection \<open>The fingerprint as the specification words it\<close>

text \<open>
  The keys of the features of a position, in the order of the specification: the side
  to move, each occupied square among the 64, each castling right held, and the
  en-passant file, indexed by the value modulo 8, when the value is not the sentinel.
\<close>

definition xor_key :: "key \<Rightarrow> key \<Rightarrow> key" where
  "xor_key a k = (fst a XOR fst k, snd a XOR snd k)"

definition square_keys :: "'p hashes \<Rightarrow> ('p, 'x) Position_scheme \<Rightarrow> nat \<Rightarrow> key option list" where
  "square_keys hashes pos i =
     (case js_index (board pos) (int i) of
        Some (Some p) \<Rightarrow> [js_index (hashes_piece hashes p) (int i)]
      | _ \<Rightarrow> [])"

definition feature_keys :: "'p hashes \<Rightarrow> ('p, 'x) Position_scheme \<Rightarrow> key option list" where
  "feature_keys hashes pos =
     [hashes_turn hashes (turn pos)] @
     concat (map (square_keys hashes pos) [0..<64]) @
     (if fst (wc pos) then [js_index (hashes_wc hashes) 0] else []) @
     (if snd (wc pos) then [js_index (hashes_wc hashes) 1] else []) @
     (if fst (bc pos) then [js_index (hashes_bc hashes) 0] else []) @
     (if snd (bc pos) then [js_index (hashes_bc hashes) 1] else []) @
     (if ep pos \<noteq> - 1 then [js_index (hashes_epFile hashes) (ep pos mod 8)] else [])"

definition fingerprint_spec :: "'p hashes \<Rightarrow> ('p, 'x) Position_scheme \<Rightarrow> key" where
  "fingerprint_spec hashes pos = foldl xor_key (0, 0) (map the (feature_keys hashes pos))"

text \<open>The arguments of the calls of \<^verbatim>\<open>applyHashes\<close> that \<^verbatim>\<open>hash\<close> makes, in order.\<close>

definition applied_keys :: "'p hashes \<Rightarrow> ('p, 'x) Position_scheme \<Rightarrow> key option list" where
  "applied_keys hashes pos =
     [hashes_turn hashes (turn pos)] @
     concat (map (square_keys hashes pos) [0..<64]) @
     (if fst (wc pos) then [js_index (hashes_wc hashes) 0] else []) @
     (if snd (wc pos) then [js_index (hashes_wc hashes) 1] else []) @
     (if fst (bc pos) then [js_index (hashes_bc hashes) 0] else []) @
     (if snd (bc pos) then [js_index (hashes_bc hashes) 1] else []) @
     (if ep pos \<noteq> - 1 then [js_index (hashes_epFile hashes) (js_rem (ep pos) 8)] else [])"

text \<open>A sequence of calls of \<^verbatim>\<open>applyHashes\<close>, one for each argument of a list.\<close>

definition apply_all :: "key option list \<Rightarrow> ('p, 'x) hash_state \<Rightarrow> error + ('p, 'x) hash_state" where
  "apply_all ks = seq (map applyHashes ks)"

section \<open>Properties of the caches\<close>

subsection \<open>Cache: the counter and the slots\<close>

lemma slots_Cache_add:
  "slots (Cache_add c (l, h) val) =
     insert (l, h) (if Cache_currentSize c = Cache_maxSize c then {} else slots c)"
  by (auto simp: slots_def Cache_add_def Let_def split: option.splits if_splits)

lemma Cache_currentSize_add:
  "Cache_currentSize (Cache_add c (l, h) val) =
     (if Cache_currentSize c = Cache_maxSize c then 1
      else if (l, h) \<in> slots c then Cache_currentSize c else Cache_currentSize c + 1)"
  by (auto simp: slots_def Cache_add_def Let_def split: option.splits)

lemma Cache_maxSize_add [simp]:
  "Cache_maxSize (Cache_add c fp val) = Cache_maxSize c"
  by (simp add: Cache_add_def Let_def split: option.splits)

lemma Cache_inv_constructor: "Cache_inv (Cache_constructor n)"
  by (simp add: Cache_inv_def Cache_constructor_def slots_def)

lemma Cache_inv_add: "Cache_inv c \<Longrightarrow> Cache_inv (Cache_add c fp val)"
  by (cases fp) (auto simp: Cache_inv_def slots_Cache_add Cache_currentSize_add insert_absorb)

lemma Cache_inv_step: "Cache_inv c \<Longrightarrow> Cache_inv (Cache_step c x)"
  by (cases x) (simp_all add: Cache_inv_add)

lemma Cache_inv_run: "Cache_inv c \<Longrightarrow> Cache_inv (Cache_run c ops)"
  unfolding Cache_run_def by (induction ops arbitrary: c) (simp_all add: Cache_inv_step)

lemma Cache_bound_add:
  "1 \<le> Cache_maxSize c \<Longrightarrow> Cache_currentSize c \<le> Cache_maxSize c \<Longrightarrow>
   Cache_currentSize (Cache_add c fp val) \<le> Cache_maxSize c"
  by (cases fp) (auto simp: Cache_currentSize_add)

lemma Cache_maxSize_run [simp]: "Cache_maxSize (Cache_run c ops) = Cache_maxSize c"
  unfolding Cache_run_def
proof (induction ops arbitrary: c)
  case Nil
  show ?case by simp
next
  case (Cons x ops)
  show ?case by (cases x) (simp_all add: Cons.IH)
qed

lemma Cache_bound_run:
  "1 \<le> Cache_maxSize c \<Longrightarrow> Cache_currentSize c \<le> Cache_maxSize c \<Longrightarrow>
   Cache_currentSize (Cache_run c ops) \<le> Cache_maxSize c"
proof (induction ops rule: rev_induct)
  case Nil
  then show ?case by (simp add: Cache_run_def)
next
  case (snoc x ops)
  have step: "Cache_run c (ops @ [x]) = Cache_step (Cache_run c ops) x"
    by (simp add: Cache_run_def)
  show ?case
  proof (cases x)
    case (OpGet h)
    with snoc step show ?thesis by simp
  next
    case (OpAdd h v)
    with snoc step Cache_bound_add [of "Cache_run c ops" h v] show ?thesis by simp
  qed
qed

lemma slots_add:
  "slots (Cache_add c fp val) =
     insert fp (if Cache_currentSize c = Cache_maxSize c then {} else slots c)"
  by (cases fp) (simp add: slots_Cache_add)

lemma size_add:
  "Cache_size (Cache_add c fp val) =
     (if Cache_size c = Cache_maxSize c then 1
      else if fp \<in> slots c then Cache_size c else Cache_size c + 1)"
  by (cases fp) (simp add: Cache_currentSize_add Cache_size_def)

lemma Cache_get_None_iff: "Cache_get c fp = None \<longleftrightarrow> fp \<notin> slots c"
  by (cases fp) (auto simp: Cache_get_def slots_def split: option.splits)

lemma Cache_get_add_same: "Cache_get (Cache_add c fp val) fp = Some val"
  by (simp add: Cache_get_def Cache_add_def Let_def split: option.splits)

lemma Cache_get_add_other:
  "fp' \<noteq> fp \<Longrightarrow>
   Cache_get (Cache_add c fp val) fp' =
     (if Cache_currentSize c = Cache_maxSize c then None else Cache_get c fp')"
  by (cases fp; cases fp')
    (auto simp: Cache_get_def Cache_add_def Let_def split: option.splits)

lemma slots_constructor [simp]: "slots (Cache_constructor n) = {}"
  by (simp add: slots_def Cache_constructor_def)

lemma Cache_run_simps [simp]:
  "Cache_run c [] = c" "Cache_run c (x # ops) = Cache_run (Cache_step c x) ops"
  by (simp_all add: Cache_run_def)

subsection \<open>Claims about the Cache\<close>

text \<open>
  C10. For a Cache constructed with \<^verbatim>\<open>maxSize\<close> at least 1, after every sequence of
  calls (adds, and gets between them) \<^verbatim>\<open>size()\<close> is at most \<^verbatim>\<open>maxSize\<close>, and it is the
  number of distinct (low, high) slots that hold an entry.
\<close>

theorem Cache_size_invariants:
  "1 \<le> maxSize \<Longrightarrow>
   Cache_size (Cache_run (Cache_constructor maxSize) ops) \<le> maxSize \<and>
   finite (slots (Cache_run (Cache_constructor maxSize) ops)) \<and>
   Cache_size (Cache_run (Cache_constructor maxSize) ops) =
     int (card (slots (Cache_run (Cache_constructor maxSize) ops)))"
proof -
  assume m: "1 \<le> maxSize"
  let ?c = "Cache_constructor maxSize :: 'a Cache"
  have "Cache_inv (Cache_run ?c ops)"
    by (rule Cache_inv_run) (rule Cache_inv_constructor)
  moreover have "Cache_currentSize (Cache_run ?c ops) \<le> Cache_maxSize ?c"
    by (rule Cache_bound_run) (use m in \<open>simp_all add: Cache_constructor_def\<close>)
  ultimately show ?thesis
    by (simp add: Cache_inv_def Cache_size_def Cache_constructor_def)
qed

theorem Cache_size_invariants_witness:
  "(1::int) \<le> 2 \<and>
   Cache_size (Cache_run (Cache_constructor 2)
     [OpAdd (1, 1) (Score 0 :: unit Entry), OpAdd (1, 2) (Score 5), OpAdd (7, 1) (Score 3)]) = 1 \<and>
   card (slots (Cache_run (Cache_constructor 2)
     [OpAdd (1, 1) (Score 0 :: unit Entry), OpAdd (1, 2) (Score 5), OpAdd (7, 1) (Score 3)])) = 1"
proof -
  let ?c = "Cache_run (Cache_constructor 2)
     [OpAdd (1, 1) (Score 0 :: unit Entry), OpAdd (1, 2) (Score 5), OpAdd (7, 1) (Score 3)]"
  have le: "(1::int) \<le> 2" by simp
  have sz: "Cache_size ?c = 1"
    by (simp add: Cache_run_def Cache_constructor_def Cache_add_def Cache_size_def)
  from Cache_size_invariants [OF le, of "[OpAdd (1, 1) (Score 0 :: unit Entry),
      OpAdd (1, 2) (Score 5), OpAdd (7, 1) (Score 3)]"]
  have "Cache_size ?c = int (card (slots ?c))" by simp
  with sz le show ?thesis by simp
qed

text \<open>
  C2. Whenever \<^verbatim>\<open>size()\<close> equals \<^verbatim>\<open>maxSize\<close>, the next add drops every entry stored
  before and then inserts the new one: the size is 1, the new entry is found and no other
  is. With \<^verbatim>\<open>maxSize\<close> 3, three adds at distinct hashes give the size 3, and a fourth at
  another hash gives the size 1, the fourth entry found and the first three absent.
\<close>

theorem Cache_add_when_full:
  fixes c :: "'e Cache" and v1 v2 v3 v4 :: 'e
  shows
  "(Cache_size c = Cache_maxSize c \<longrightarrow>
      Cache_size (Cache_add c fp val) = 1 \<and>
      Cache_get (Cache_add c fp val) fp = Some val \<and>
      (\<forall>fp'. fp' \<noteq> fp \<longrightarrow> Cache_get (Cache_add c fp val) fp' = None)) \<and>
   (distinct [k1, k2, k3, k4] \<longrightarrow>
      Cache_size (Cache_run (Cache_constructor 3) [OpAdd k1 v1, OpAdd k2 v2, OpAdd k3 v3]) = 3 \<and>
      Cache_size (Cache_run (Cache_constructor 3)
        [OpAdd k1 v1, OpAdd k2 v2, OpAdd k3 v3, OpAdd k4 v4]) = 1 \<and>
      Cache_get (Cache_run (Cache_constructor 3)
        [OpAdd k1 v1, OpAdd k2 v2, OpAdd k3 v3, OpAdd k4 v4]) k4 = Some v4 \<and>
      Cache_get (Cache_run (Cache_constructor 3)
        [OpAdd k1 v1, OpAdd k2 v2, OpAdd k3 v3, OpAdd k4 v4]) k1 = None \<and>
      Cache_get (Cache_run (Cache_constructor 3)
        [OpAdd k1 v1, OpAdd k2 v2, OpAdd k3 v3, OpAdd k4 v4]) k2 = None \<and>
      Cache_get (Cache_run (Cache_constructor 3)
        [OpAdd k1 v1, OpAdd k2 v2, OpAdd k3 v3, OpAdd k4 v4]) k3 = None)"
proof (intro conjI impI allI)
  assume full: "Cache_size c = Cache_maxSize c"
  then show "Cache_size (Cache_add c fp val) = 1"
    by (simp add: size_add)
  show "Cache_get (Cache_add c fp val) fp = Some val"
    by (rule Cache_get_add_same)
  fix fp' :: "int \<times> int"
  assume "fp' \<noteq> fp"
  with full show "Cache_get (Cache_add c fp val) fp' = None"
    by (simp add: Cache_get_add_other Cache_size_def)
next
  assume d: "distinct [k1, k2, k3, k4]"
  let ?c0 = "Cache_constructor 3 :: 'e Cache"
  let ?c1 = "Cache_add ?c0 k1 v1"
  let ?c2 = "Cache_add ?c1 k2 v2"
  let ?c3 = "Cache_add ?c2 k3 v3"
  let ?c4 = "Cache_add ?c3 k4 v4"
  have s0: "Cache_size ?c0 = 0" "Cache_maxSize ?c0 = 3"
    by (simp_all add: Cache_size_def Cache_constructor_def)
  have s1: "Cache_size ?c1 = 1" "slots ?c1 = {k1}"
    using s0 by (simp_all add: size_add slots_add Cache_size_def [symmetric])
  have s2: "Cache_size ?c2 = 2" "slots ?c2 = {k2, k1}"
    using s0 s1 d by (auto simp: size_add slots_add Cache_size_def [symmetric])
  have s3: "Cache_size ?c3 = 3" "slots ?c3 = {k3, k2, k1}"
    using s0 s1 s2 d by (auto simp: size_add slots_add Cache_size_def [symmetric])
  have s4: "Cache_size ?c4 = 1" "slots ?c4 = {k4}"
    using s0 s3 by (simp_all add: size_add slots_add Cache_size_def [symmetric])
  show "Cache_size (Cache_run ?c0 [OpAdd k1 v1, OpAdd k2 v2, OpAdd k3 v3]) = 3"
    using s3 by simp
  show "Cache_size (Cache_run ?c0 [OpAdd k1 v1, OpAdd k2 v2, OpAdd k3 v3, OpAdd k4 v4]) = 1"
    using s4 by simp
  show "Cache_get (Cache_run ?c0 [OpAdd k1 v1, OpAdd k2 v2, OpAdd k3 v3, OpAdd k4 v4]) k4 = Some v4"
    by (simp add: Cache_get_add_same)
  show "Cache_get (Cache_run ?c0 [OpAdd k1 v1, OpAdd k2 v2, OpAdd k3 v3, OpAdd k4 v4]) k1 = None"
    using s4 d by (auto simp: Cache_get_None_iff)
  show "Cache_get (Cache_run ?c0 [OpAdd k1 v1, OpAdd k2 v2, OpAdd k3 v3, OpAdd k4 v4]) k2 = None"
    using s4 d by (auto simp: Cache_get_None_iff)
  show "Cache_get (Cache_run ?c0 [OpAdd k1 v1, OpAdd k2 v2, OpAdd k3 v3, OpAdd k4 v4]) k3 = None"
    using s4 d by (auto simp: Cache_get_None_iff)
qed

theorem Cache_add_when_full_witness:
  "Cache_size (Cache_run (Cache_constructor 1) [OpAdd (5, -6) (Score 1 :: unit Entry)]) =
     Cache_maxSize (Cache_run (Cache_constructor 1) [OpAdd (5, -6) (Score 1 :: unit Entry)]) \<and>
   Cache_size (Cache_add (Cache_run (Cache_constructor 1) [OpAdd (5, -6) (Score 1 :: unit Entry)])
     (5, 7) (Score 2)) = 1 \<and>
   Cache_get (Cache_add (Cache_run (Cache_constructor 1) [OpAdd (5, -6) (Score 1 :: unit Entry)])
     (5, 7) (Score 2)) (5, -6) = None \<and>
   distinct [(1 :: int, 1 :: int), (1, 2), (-3, 1), (4, 4)] \<and>
   Cache_get (Cache_run (Cache_constructor 3)
     [OpAdd (1, 1) (Score 10 :: unit Entry), OpAdd (1, 2) (Score 20),
      OpAdd (-3, 1) (Score 30), OpAdd (4, 4) (Score 40)]) (1, 2) = None"
proof -
  let ?c = "Cache_run (Cache_constructor 1) [OpAdd (5, -6) (Score 1 :: unit Entry)]"
  have full: "Cache_size ?c = Cache_maxSize ?c"
    by (simp add: Cache_constructor_def Cache_add_def Cache_size_def)
  have d: "distinct [(1 :: int, 1 :: int), (1, 2), (-3, 1), (4, 4)]" by simp
  have ne: "(5 :: int, -6 :: int) \<noteq> (5, 7)" by simp
  from Cache_add_when_full [of ?c "(5, 7)" "Score 2" "(1, 1)" "(1, 2)" "(-3, 1)" "(4, 4)"
      "Score 10" "Score 20" "Score 30" "Score 40"] full d ne
  show ?thesis by blast
qed

subsection \<open>LRU: the map as a list in order of recency\<close>

lemma Map_get_None_iff: "Map_get m k = None \<longleftrightarrow> k \<notin> set (Map_keys m)"
  by (simp add: Map_get_def Map_keys_def map_of_eq_None_iff)

lemma Map_keys_delete: "Map_keys (Map_delete m k) = removeAll k (Map_keys m)"
  by (induction m) (auto simp: Map_keys_def Map_delete_def)

lemma Map_delete_absent: "k \<notin> set (Map_keys m) \<Longrightarrow> Map_delete m k = m"
  by (induction m) (auto simp: Map_keys_def Map_delete_def)

lemma Map_set_absent: "k \<notin> set (Map_keys m) \<Longrightarrow> Map_set m k v = m @ [(k, v)]"
  by (induction m) (auto simp: Map_keys_def)

lemma Map_set_delete: "Map_set (Map_delete m k) k v = Map_delete m k @ [(k, v)]"
  by (rule Map_set_absent) (simp add: Map_keys_delete)

lemma Map_delete_first:
  "distinct (Map_keys (p # m)) \<Longrightarrow> Map_delete (p # m) (fst p) = m"
  using Map_delete_absent [of "fst p" m] by (simp add: Map_delete_def Map_keys_def)

lemma inserted_eq:
  "(case Map_get m (fst fp) of
      Some arr \<Rightarrow> Map_set (Map_delete m (fst fp)) (fst fp) (arr(snd fp \<mapsto> val))
    | None \<Rightarrow> Map_set m (fst fp) (Map.empty(snd fp \<mapsto> val))) = inserted m fp val"
proof (cases "Map_get m (fst fp)")
  case None
  then have "fst fp \<notin> set (Map_keys m)"
    by (simp add: Map_get_None_iff)
  with None show ?thesis
    by (simp add: inserted_def Map_set_absent Map_delete_absent)
next
  case (Some arr)
  then show ?thesis
    by (simp add: inserted_def Map_set_delete)
qed

lemma Map_first_key_hd: "m \<noteq> [] \<Longrightarrow> Map_first_key m = Some (fst (hd m))"
  by (cases m) (simp_all add: Map_first_key_def)

lemma inserted_nonempty [simp]: "inserted m fp val \<noteq> []"
  by (simp add: inserted_def)

lemma LRU_add_inserted:
  "LRU_add s fp val =
     s\<lparr>LRU_map :=
         (if LRU_maxSize s < int (length (inserted (LRU_map s) fp val))
          then Map_delete (inserted (LRU_map s) fp val) (fst (hd (inserted (LRU_map s) fp val)))
          else inserted (LRU_map s) fp val)\<rparr>"
  unfolding LRU_add_def Let_def inserted_eq
  by (simp add: Map_size_def Map_first_key_hd)

lemma LRU_get_map:
  "LRU_map (snd (LRU_get s fp)) =
     (case Map_get (LRU_map s) (fst fp) of
        Some arr \<Rightarrow> Map_delete (LRU_map s) (fst fp) @ [(fst fp, arr)]
      | None \<Rightarrow> LRU_map s)"
  by (simp add: LRU_get_def Let_def Map_set_delete split: option.splits)

lemma age_snoc:
  "age (ops @ [x]) k = (if op_low x = k then 0 else Suc (age ops k))"
  by (simp add: age_def)

lemma Map_keys_inserted:
  "Map_keys (inserted m fp val) = removeAll (fst fp) (Map_keys m) @ [fst fp]"
  by (simp add: inserted_def Map_keys_delete [symmetric]) (simp add: Map_keys_def)

lemma length_removeAll_distinct:
  "distinct ks \<Longrightarrow> length (removeAll k ks) = (if k \<in> set ks then length ks - 1 else length ks)"
  by (simp add: distinct_remove1_removeAll [symmetric] length_remove1)

lemma length_inserted:
  "distinct (Map_keys m) \<Longrightarrow>
   length (inserted m fp val) =
     (if fst fp \<in> set (Map_keys m) then length m else Suc (length m))"
proof -
  assume d: "distinct (Map_keys m)"
  have "length (inserted m fp val) = length (Map_keys (inserted m fp val))"
    by (simp add: Map_keys_def)
  also have "\<dots> = Suc (length (removeAll (fst fp) (Map_keys m)))"
    by (simp add: Map_keys_inserted)
  also have "\<dots> = (if fst fp \<in> set (Map_keys m) then length m else Suc (length m))"
  proof (cases "fst fp \<in> set (Map_keys m)")
    case True
    then have "Map_keys m \<noteq> []" by auto
    then have "0 < length m" by (simp add: Map_keys_def)
    with True d show ?thesis
      by (simp add: length_removeAll_distinct) (simp add: Map_keys_def)
  next
    case False
    with d show ?thesis
      by (simp add: length_removeAll_distinct) (simp add: Map_keys_def)
  qed
  finally show ?thesis .
qed

lemma recency_touch:
  assumes "sorted_wrt (\<lambda>a b. age ops b < age ops a) ks" and "op_low x = l"
  shows "sorted_wrt (\<lambda>a b. age (ops @ [x]) b < age (ops @ [x]) a) (removeAll l ks @ [l])"
proof -
  have "sorted_wrt (\<lambda>a b. age ops b < age ops a) (removeAll l ks)"
    using assms(1) by (simp add: removeAll_filter_not_eq sorted_wrt_filter)
  then have "sorted_wrt (\<lambda>a b. age (ops @ [x]) b < age (ops @ [x]) a) (removeAll l ks)"
    by (rule sorted_wrt_mono_rel [rotated]) (simp add: age_snoc assms(2))
  then show ?thesis
    by (simp add: sorted_wrt_append age_snoc assms(2))
qed

lemma recency_other:
  assumes "sorted_wrt (\<lambda>a b. age ops b < age ops a) ks" and "op_low x \<notin> set ks"
  shows "sorted_wrt (\<lambda>a b. age (ops @ [x]) b < age (ops @ [x]) a) ks"
  using assms(1) by (rule sorted_wrt_mono_rel [rotated]) (use assms(2) in \<open>auto simp: age_snoc\<close>)

lemma LRU_inv_constructor: "LRU_inv [] (LRU_constructor n)"
  by (simp add: LRU_inv_def LRU_constructor_def Map_keys_def)

lemma Map_delete_hd:
  "m \<noteq> [] \<Longrightarrow> distinct (Map_keys m) \<Longrightarrow> Map_delete m (fst (hd m)) = tl m"
  by (cases m) (simp_all add: Map_delete_first)

lemma Map_keys_tl: "Map_keys (tl m) = tl (Map_keys m)"
  by (simp add: Map_keys_def map_tl)

lemma LRU_inv_add:
  assumes "LRU_inv ops s"
  shows "LRU_inv (ops @ [OpAdd fp val]) (LRU_add s fp val)"
proof -
  let ?m1 = "inserted (LRU_map s) fp val"
  let ?R = "\<lambda>a b. age (ops @ [OpAdd fp val]) b < age (ops @ [OpAdd fp val]) a"
  from assms have d: "distinct (Map_keys (LRU_map s))"
    and r: "sorted_wrt (\<lambda>a b. age ops b < age ops a) (Map_keys (LRU_map s))"
    and b: "LRU_map s = [] \<or> int (length (LRU_map s)) \<le> LRU_maxSize s"
    by (simp_all add: LRU_inv_def)
  have d1: "distinct (Map_keys ?m1)"
    using d by (simp add: Map_keys_inserted distinct_removeAll)
  have r1: "sorted_wrt ?R (Map_keys ?m1)"
    unfolding Map_keys_inserted by (rule recency_touch [OF r]) simp
  have len: "length ?m1 \<le> Suc (length (LRU_map s))"
    using d by (simp add: length_inserted)
  have mx: "LRU_maxSize (LRU_add s fp val) = LRU_maxSize s"
    by (simp add: LRU_add_inserted)
  show ?thesis
  proof (cases "LRU_maxSize s < int (length ?m1)")
    case True
    then have eq: "LRU_map (LRU_add s fp val) = tl ?m1"
      by (simp add: LRU_add_inserted Map_delete_hd d1)
    have "distinct (Map_keys (tl ?m1))"
      using d1 by (simp add: Map_keys_tl distinct_tl)
    moreover have "sorted_wrt ?R (Map_keys (tl ?m1))"
      using r1 by (cases "Map_keys ?m1") (simp_all add: Map_keys_tl)
    moreover have "tl ?m1 = [] \<or> int (length (tl ?m1)) \<le> LRU_maxSize s"
    proof (cases "LRU_map s = []")
      case True
      then show ?thesis by (simp add: inserted_def Map_delete_def)
    next
      case False
      with b have "int (length (LRU_map s)) \<le> LRU_maxSize s" by simp
      with len have "int (length ?m1 - 1) \<le> LRU_maxSize s" by linarith
      then show ?thesis by simp
    qed
    ultimately show ?thesis
      by (simp add: LRU_inv_def eq mx)
  next
    case False
    then have eq: "LRU_map (LRU_add s fp val) = ?m1"
      by (simp add: LRU_add_inserted)
    from False d1 r1 show ?thesis
      by (simp add: LRU_inv_def eq mx)
  qed
qed

lemma LRU_inv_get:
  assumes "LRU_inv ops s"
  shows "LRU_inv (ops @ [OpGet fp]) (snd (LRU_get s fp))"
proof -
  let ?R = "\<lambda>a b. age (ops @ [OpGet fp]) b < age (ops @ [OpGet fp]) a"
  from assms have d: "distinct (Map_keys (LRU_map s))"
    and r: "sorted_wrt (\<lambda>a b. age ops b < age ops a) (Map_keys (LRU_map s))"
    and b: "LRU_map s = [] \<or> int (length (LRU_map s)) \<le> LRU_maxSize s"
    by (simp_all add: LRU_inv_def)
  show ?thesis
  proof (cases "Map_get (LRU_map s) (fst fp)")
    case None
    then have "op_low (OpGet fp :: 'a op) \<notin> set (Map_keys (LRU_map s))"
      by (simp add: Map_get_None_iff)
    from recency_other [OF r this] None d b show ?thesis
      by (simp add: LRU_inv_def LRU_get_def)
  next
    case (Some arr)
    then have "fst fp \<in> set (Map_keys (LRU_map s))"
      using Map_get_None_iff [of "LRU_map s" "fst fp"] by simp
    then have len: "length (removeAll (fst fp) (Map_keys (LRU_map s))) = length (LRU_map s) - 1"
      and ne: "LRU_map s \<noteq> []"
      using d by (auto simp: length_removeAll_distinct Map_keys_def)
    have keys: "Map_keys (LRU_map (snd (LRU_get s fp))) =
        removeAll (fst fp) (Map_keys (LRU_map s)) @ [fst fp]"
      using Some by (simp add: LRU_get_map Map_keys_delete [symmetric]) (simp add: Map_keys_def)
    have "length (LRU_map (snd (LRU_get s fp))) = length (Map_keys (LRU_map (snd (LRU_get s fp))))"
      by (simp add: Map_keys_def)
    with len ne have "length (LRU_map (snd (LRU_get s fp))) = length (LRU_map s)"
      by (simp add: keys)
    moreover have "LRU_maxSize (snd (LRU_get s fp)) = LRU_maxSize s"
      by (simp add: LRU_get_def Let_def split: option.splits)
    moreover have "sorted_wrt ?R (removeAll (fst fp) (Map_keys (LRU_map s)) @ [fst fp])"
      by (rule recency_touch [OF r]) simp
    ultimately show ?thesis
      using d b ne by (simp add: LRU_inv_def keys distinct_removeAll)
  qed
qed

lemma LRU_run_snoc: "LRU_run s (ops @ [x]) = LRU_step (LRU_run s ops) x"
  by (simp add: LRU_run_def)

lemma LRU_inv_run: "LRU_inv ops (LRU_run (LRU_constructor n) ops)"
proof (induction ops rule: rev_induct)
  case Nil
  show ?case by (simp add: LRU_run_def LRU_inv_constructor)
next
  case (snoc x ops)
  then show ?case
    by (cases x) (simp_all add: LRU_run_snoc LRU_inv_add LRU_inv_get)
qed

lemma LRU_maxSize_step [simp]: "LRU_maxSize (LRU_step s x) = LRU_maxSize s"
  by (cases x) (simp_all add: LRU_get_def LRU_add_def Let_def split: option.splits)

lemma LRU_maxSize_run [simp]: "LRU_maxSize (LRU_run s ops) = LRU_maxSize s"
  by (induction ops rule: rev_induct) (simp_all add: LRU_run_snoc, simp add: LRU_run_def)

lemma LRU_run_simps [simp]:
  "LRU_run s [] = s" "LRU_run s (x # ops) = LRU_run (LRU_step s x) ops"
  by (simp_all add: LRU_run_def)

lemma LRU_size_bound:
  "0 < n \<Longrightarrow> LRU_size (LRU_run (LRU_constructor n) ops) \<le> n"
  using LRU_inv_run [of ops n]
  by (auto simp: LRU_inv_def LRU_size_def Map_size_def LRU_constructor_def)

lemma LRU_add_overflow:
  assumes inv: "LRU_inv ops s" and pos: "0 < LRU_maxSize s"
    and new: "fst fp \<notin> set (Map_keys (LRU_map s))"
    and full: "LRU_size s = LRU_maxSize s"
  shows "\<exists>e\<in>set (Map_keys (LRU_map s)).
           (\<forall>k\<in>set (Map_keys (LRU_map s)). k \<noteq> e \<longrightarrow> age ops k < age ops e) \<and>
           LRU_map (LRU_add s fp val) =
             Map_delete (LRU_map s) e @ [(fst fp, [snd fp \<mapsto> val])]"
proof -
  from full pos have "LRU_map s \<noteq> []"
    by (auto simp: LRU_size_def Map_size_def)
  then obtain p m where m: "LRU_map s = p # m"
    by (cases "LRU_map s") auto
  from inv have d: "distinct (Map_keys (LRU_map s))"
    and r: "sorted_wrt (\<lambda>a b. age ops b < age ops a) (Map_keys (LRU_map s))"
    by (simp_all add: LRU_inv_def)
  have ins: "inserted (LRU_map s) fp val = LRU_map s @ [(fst fp, [snd fp \<mapsto> val])]"
    using new by (simp add: inserted_def Map_delete_absent Map_get_None_iff [symmetric])
  have "LRU_maxSize s < int (length (inserted (LRU_map s) fp val))"
    using full by (simp add: ins LRU_size_def Map_size_def)
  then have "LRU_map (LRU_add s fp val) =
      Map_delete (inserted (LRU_map s) fp val) (fst (hd (inserted (LRU_map s) fp val)))"
    by (simp add: LRU_add_inserted)
  also have "\<dots> = Map_delete (LRU_map s) (fst p) @ [(fst fp, [snd fp \<mapsto> val])]"
    unfolding ins using new by (auto simp: m Map_delete_def Map_keys_def)
  finally have eq: "LRU_map (LRU_add s fp val) =
      Map_delete (LRU_map s) (fst p) @ [(fst fp, [snd fp \<mapsto> val])]" .
  have "\<forall>k\<in>set (Map_keys (LRU_map s)). k \<noteq> fst p \<longrightarrow> age ops k < age ops (fst p)"
    using r by (auto simp: m Map_keys_def)
  moreover have "fst p \<in> set (Map_keys (LRU_map s))"
    by (simp add: m Map_keys_def)
  ultimately show ?thesis using eq by blast
qed

lemma LRU_add_no_overflow:
  assumes inv: "LRU_inv ops s"
    and no: "fst fp \<in> set (Map_keys (LRU_map s)) \<or> LRU_size s < LRU_maxSize s"
  shows "LRU_map (LRU_add s fp val) = inserted (LRU_map s) fp val"
proof -
  from inv have d: "distinct (Map_keys (LRU_map s))"
    and b: "LRU_map s = [] \<or> int (length (LRU_map s)) \<le> LRU_maxSize s"
    by (simp_all add: LRU_inv_def)
  have "int (length (inserted (LRU_map s) fp val)) \<le> LRU_maxSize s"
    using no b d by (auto simp: length_inserted LRU_size_def Map_size_def Map_keys_def)
  then show ?thesis
    by (simp add: LRU_add_inserted)
qed

lemma set_Map_keys_inserted:
  "set (Map_keys (inserted m fp val)) = insert (fst fp) (set (Map_keys m))"
  by (auto simp: Map_keys_inserted)

lemma LRU_scenario:
  fixes va vb vc :: 'e
  assumes "distinct [A, B, C]"
  shows "LRU_map (LRU_run (LRU_constructor 2)
           [OpAdd (A, ha) va, OpAdd (B, hb) vb, OpGet (A, ha), OpAdd (C, hc) vc]) =
         [(A, [ha \<mapsto> va]), (C, [hc \<mapsto> vc])]"
  using assms
  by (simp add: LRU_constructor_def LRU_add_def LRU_get_def Map_get_def Map_delete_def
      Map_size_def Map_first_key_def)

subsection \<open>Claims about the LRU\<close>

text \<open>
  C1. For an LRU constructed with a positive \<^verbatim>\<open>maxSize\<close>, after any sequence of calls
  \<^verbatim>\<open>size()\<close> is at most \<^verbatim>\<open>maxSize\<close>. An add makes the number of groups exceed
  \<^verbatim>\<open>maxSize\<close> exactly when its low part is new and the cache is full; then one group
  \<open>e\<close> is evicted, every other group of the cache was touched (by get or add) more
  recently than \<open>e\<close>, and the rest of the map is kept with the new group at its end.
  Any other add evicts nothing. With \<^verbatim>\<open>maxSize\<close> 2 and distinct low parts A, B, C, the
  calls add(A), add(B), get(A), add(C) leave the size 2, the entries of A and C found and
  that of B absent.
\<close>

theorem LRU_capacity_and_eviction:
  fixes ops :: "'e op list" and val va vb vc :: 'e
  assumes "0 < n"
  shows
   "LRU_size (LRU_run (LRU_constructor n) ops) \<le> n \<and>
    (fst fp \<notin> set (Map_keys (LRU_map (LRU_run (LRU_constructor n) ops))) \<and>
     LRU_size (LRU_run (LRU_constructor n) ops) = n \<longrightarrow>
       (\<exists>e\<in>set (Map_keys (LRU_map (LRU_run (LRU_constructor n) ops))).
          (\<forall>k\<in>set (Map_keys (LRU_map (LRU_run (LRU_constructor n) ops))).
             k \<noteq> e \<longrightarrow> age ops k < age ops e) \<and>
          LRU_map (LRU_add (LRU_run (LRU_constructor n) ops) fp val) =
            Map_delete (LRU_map (LRU_run (LRU_constructor n) ops)) e @
              [(fst fp, [snd fp \<mapsto> val])])) \<and>
    (fst fp \<in> set (Map_keys (LRU_map (LRU_run (LRU_constructor n) ops))) \<or>
     LRU_size (LRU_run (LRU_constructor n) ops) < n \<longrightarrow>
       set (Map_keys (LRU_map (LRU_add (LRU_run (LRU_constructor n) ops) fp val))) =
         insert (fst fp) (set (Map_keys (LRU_map (LRU_run (LRU_constructor n) ops))))) \<and>
    (distinct [A, B, C] \<longrightarrow>
       LRU_size (LRU_run (LRU_constructor 2)
         [OpAdd (A, ha) va, OpAdd (B, hb) vb, OpGet (A, ha), OpAdd (C, hc) vc]) = 2 \<and>
       fst (LRU_get (LRU_run (LRU_constructor 2)
         [OpAdd (A, ha) va, OpAdd (B, hb) vb, OpGet (A, ha), OpAdd (C, hc) vc]) (A, ha)) = Some va \<and>
       fst (LRU_get (LRU_run (LRU_constructor 2)
         [OpAdd (A, ha) va, OpAdd (B, hb) vb, OpGet (A, ha), OpAdd (C, hc) vc]) (C, hc)) = Some vc \<and>
       fst (LRU_get (LRU_run (LRU_constructor 2)
         [OpAdd (A, ha) va, OpAdd (B, hb) vb, OpGet (A, ha), OpAdd (C, hc) vc]) (B, hb)) = None \<and>
       fst (LRU_get (LRU_run (LRU_constructor 2)
         [OpAdd (A, ha) va, OpAdd (B, hb) vb, OpGet (A, ha), OpAdd (C, hc) vc,
          OpGet (A, ha), OpGet (C, hc)]) (B, hb)) = None)"
proof (intro conjI impI)
  let ?s = "LRU_run (LRU_constructor n) ops :: 'e LRU"
  have inv: "LRU_inv ops ?s" by (rule LRU_inv_run)
  have mx: "LRU_maxSize ?s = n" by (simp add: LRU_constructor_def)
  show "LRU_size ?s \<le> n" using assms by (rule LRU_size_bound)
  {
    assume "fst fp \<notin> set (Map_keys (LRU_map ?s)) \<and> LRU_size ?s = n"
    then show "\<exists>e\<in>set (Map_keys (LRU_map ?s)).
          (\<forall>k\<in>set (Map_keys (LRU_map ?s)). k \<noteq> e \<longrightarrow> age ops k < age ops e) \<and>
          LRU_map (LRU_add ?s fp val) =
            Map_delete (LRU_map ?s) e @ [(fst fp, [snd fp \<mapsto> val])]"
      using LRU_add_overflow [OF inv, of fp val] assms mx by simp
  }
  {
    assume "fst fp \<in> set (Map_keys (LRU_map ?s)) \<or> LRU_size ?s < n"
    then have "LRU_map (LRU_add ?s fp val) = inserted (LRU_map ?s) fp val"
      using LRU_add_no_overflow [OF inv, of fp val] mx by simp
    then show "set (Map_keys (LRU_map (LRU_add ?s fp val))) =
        insert (fst fp) (set (Map_keys (LRU_map ?s)))"
      by (simp add: set_Map_keys_inserted)
  }
  {
    assume d: "distinct [A, B, C]"
    let ?t = "LRU_run (LRU_constructor 2)
         [OpAdd (A, ha) va, OpAdd (B, hb) vb, OpGet (A, ha), OpAdd (C, hc) vc]"
    note m = LRU_scenario [OF d, of ha va hb vb hc vc]
    show "LRU_size ?t = 2"
      by (simp only: LRU_size_def m) (simp add: Map_size_def)
    show "fst (LRU_get ?t (A, ha)) = Some va"
      unfolding LRU_get_def m by (simp add: Map_get_def)
    show "fst (LRU_get ?t (C, hc)) = Some vc"
      unfolding LRU_get_def m using d by (simp add: Map_get_def)
    show "fst (LRU_get ?t (B, hb)) = None"
      unfolding LRU_get_def m using d by (simp add: Map_get_def)
    show "fst (LRU_get (LRU_run (LRU_constructor 2)
         [OpAdd (A, ha) va, OpAdd (B, hb) vb, OpGet (A, ha), OpAdd (C, hc) vc,
          OpGet (A, ha), OpGet (C, hc)]) (B, hb)) = None"
      using d
      by (simp add: LRU_constructor_def LRU_add_def LRU_get_def Map_get_def Map_delete_def
          Map_size_def Map_first_key_def)
  }
qed

theorem LRU_capacity_and_eviction_witness:
  "(0::int) < 2 \<and>
   LRU_map (LRU_run (LRU_constructor 2)
     [OpAdd (1, 10) (Score 1 :: unit Entry), OpAdd (2, 20) (Score 2), OpGet (1, 10)]) =
     [(2, [20 \<mapsto> Score 2]), (1, [10 \<mapsto> Score 1])] \<and>
   age [OpAdd (1, 10) (Score 1 :: unit Entry), OpAdd (2, 20) (Score 2), OpGet (1, 10)] 2 = 1 \<and>
   age [OpAdd (1, 10) (Score 1 :: unit Entry), OpAdd (2, 20) (Score 2), OpGet (1, 10)] 1 = 0 \<and>
   LRU_map (LRU_add (LRU_run (LRU_constructor 2)
     [OpAdd (1, 10) (Score 1 :: unit Entry), OpAdd (2, 20) (Score 2), OpGet (1, 10)])
       (3, 30) (Score 3)) =
     [(1, [10 \<mapsto> Score 1]), (3, [30 \<mapsto> Score 3])] \<and>
   set (Map_keys (LRU_map (LRU_add (LRU_run (LRU_constructor 2)
     [OpAdd (1, 10) (Score 1 :: unit Entry), OpAdd (2, 20) (Score 2), OpGet (1, 10)])
       (2, 21) (Score 4)))) = {1, 2} \<and>
   distinct [1, 2, 3 :: int] \<and>
   fst (LRU_get (LRU_run (LRU_constructor 2)
     [OpAdd (1, 10) (Score 1 :: unit Entry), OpAdd (2, 20) (Score 2), OpGet (1, 10),
      OpAdd (3, 30) (Score 3)]) (2, 20)) = None"
proof -
  let ?ops = "[OpAdd (1, 10) (Score 1 :: unit Entry), OpAdd (2, 20) (Score 2), OpGet (1, 10)]"
  let ?s = "LRU_run (LRU_constructor 2) ?ops"
  have pos: "(0::int) < 2" by simp
  have m: "LRU_map ?s = [(2, [20 \<mapsto> Score 2]), (1, [10 \<mapsto> Score 1])]"
    by (simp add: LRU_constructor_def LRU_add_def LRU_get_def Map_get_def Map_delete_def
        Map_size_def Map_first_key_def)
  have a2: "age ?ops 2 = 1" and a1: "age ?ops 1 = 0"
    by (simp_all add: age_def)
  have new: "fst (3 :: int, 30 :: int) \<notin> set (Map_keys (LRU_map ?s))"
    unfolding m by (simp add: Map_keys_def)
  have full: "LRU_size ?s = 2"
    unfolding LRU_size_def m by (simp add: Map_size_def)
  have old: "fst (2 :: int, 21 :: int) \<in> set (Map_keys (LRU_map ?s))"
    unfolding m by (simp add: Map_keys_def)
  have d: "distinct [1, 2, 3 :: int]" by simp
  note thm1 = LRU_capacity_and_eviction [OF pos, of ?ops "(3, 30)" "Score 3" 1 2 3
      10 "Score 1" 20 "Score 2" 30 "Score 3"]
  note thm2 = LRU_capacity_and_eviction [OF pos, of ?ops "(2, 21)" "Score 4" 1 2 3
      10 "Score 1" 20 "Score 2" 30 "Score 3"]
  from thm1 new full obtain e where e: "e \<in> set (Map_keys (LRU_map ?s))"
    and oldest: "\<forall>k\<in>set (Map_keys (LRU_map ?s)). k \<noteq> e \<longrightarrow> age ?ops k < age ?ops e"
    and eq: "LRU_map (LRU_add ?s (3, 30) (Score 3)) =
      Map_delete (LRU_map ?s) e @ [(fst (3 :: int, 30 :: int), [snd (3 :: int, 30 :: int) \<mapsto> Score 3])]"
    by blast
  from e have "e = 2 \<or> e = 1" unfolding m by (simp add: Map_keys_def)
  moreover have "e \<noteq> 1"
  proof
    assume "e = 1"
    with oldest have "age ?ops 2 < age ?ops 1" unfolding m by (simp add: Map_keys_def)
    with a1 a2 show False by simp
  qed
  ultimately have "e = 2" by simp
  with eq have evicted: "LRU_map (LRU_add ?s (3, 30) (Score 3)) =
      [(1, [10 \<mapsto> Score 1]), (3, [30 \<mapsto> Score 3])]"
    unfolding m by (simp add: Map_delete_def)
  from thm2 old have kept: "set (Map_keys (LRU_map (LRU_add ?s (2, 21) (Score 4)))) = {1, 2}"
    unfolding m by (auto simp: Map_keys_def)
  from thm1 d have absent: "fst (LRU_get (LRU_run (LRU_constructor 2)
     [OpAdd (1, 10) (Score 1 :: unit Entry), OpAdd (2, 20) (Score 2), OpGet (1, 10),
      OpAdd (3, 30) (Score 3)]) (2, 20)) = None"
    by blast
  from pos m a2 a1 evicted kept d absent show ?thesis by blast
qed

subsection \<open>Entries come from adds; a stored entry is read back\<close>

lemma Cache_run_snoc: "Cache_run c (ops @ [x]) = Cache_step (Cache_run c ops) x"
  by (simp add: Cache_run_def)

lemma Cache_stored_run: "Cache_stored ops (Cache_run (Cache_constructor n) ops)"
proof (induction ops rule: rev_induct)
  case Nil
  show ?case by (simp add: Cache_stored_def Cache_get_def Cache_constructor_def)
next
  case (snoc x ops)
  show ?case
  proof (cases x)
    case (OpGet h)
    with snoc show ?thesis by (simp add: Cache_run_snoc Cache_stored_def)
  next
    case (OpAdd h v)
    have "OpAdd fp w \<in> set (ops @ [x])"
      if "Cache_get (Cache_add (Cache_run (Cache_constructor n) ops) h v) fp = Some w"
      for fp w
    proof (cases "fp = h")
      case True
      with that OpAdd show ?thesis by (simp add: Cache_get_add_same)
    next
      case False
      with that have "Cache_get (Cache_run (Cache_constructor n) ops) fp = Some w"
        by (simp add: Cache_get_add_other split: if_splits)
      with snoc have "OpAdd fp w \<in> set ops" unfolding Cache_stored_def by blast
      then show ?thesis by simp
    qed
    with OpAdd show ?thesis by (simp add: Cache_run_snoc Cache_stored_def)
  qed
qed

lemma set_inserted:
  "set (inserted m fp val) \<subseteq>
     insert (fst fp, (case Map_get m (fst fp) of Some arr \<Rightarrow> arr | None \<Rightarrow> Map.empty)
       (snd fp \<mapsto> val)) (set m)"
  by (auto simp: inserted_def Map_delete_def)

lemma set_LRU_add: "set (LRU_map (LRU_add s fp val)) \<subseteq> set (inserted (LRU_map s) fp val)"
  by (auto simp: LRU_add_inserted Map_delete_def)

lemma set_LRU_get: "set (LRU_map (snd (LRU_get s fp))) \<subseteq> set (LRU_map s)"
  by (auto simp: LRU_get_map Map_delete_def Map_get_def split: option.splits dest: map_of_SomeD)

lemma LRU_stored_add:
  assumes "LRU_stored ops s"
  shows "LRU_stored (ops @ [OpAdd fp val]) (LRU_add s fp val)"
  unfolding LRU_stored_def
proof (intro ballI allI impI)
  fix p h v
  assume p: "p \<in> set (LRU_map (LRU_add s fp val))" and v: "snd p h = Some v"
  from p set_LRU_add [of s fp val] set_inserted [of "LRU_map s" fp val]
  have "p = (fst fp, (case Map_get (LRU_map s) (fst fp) of Some arr \<Rightarrow> arr | None \<Rightarrow> Map.empty)
       (snd fp \<mapsto> val)) \<or> p \<in> set (LRU_map s)"
    by auto
  then show "OpAdd (fst p, h) v \<in> set (ops @ [OpAdd fp val])"
  proof
    assume new: "p = (fst fp, (case Map_get (LRU_map s) (fst fp) of Some arr \<Rightarrow> arr | None \<Rightarrow> Map.empty)
       (snd fp \<mapsto> val))"
    show ?thesis
    proof (cases "h = snd fp")
      case True
      with new v show ?thesis by simp
    next
      case False
      with new v obtain arr where arr: "Map_get (LRU_map s) (fst fp) = Some arr" "arr h = Some v"
        by (auto split: option.splits)
      then have "(fst fp, arr) \<in> set (LRU_map s)"
        by (simp add: Map_get_def map_of_SomeD)
      with assms arr new show ?thesis by (fastforce simp: LRU_stored_def)
    qed
  next
    assume "p \<in> set (LRU_map s)"
    with assms v show ?thesis by (simp add: LRU_stored_def)
  qed
qed

lemma LRU_stored_get:
  assumes "LRU_stored ops s"
  shows "LRU_stored (ops @ [OpGet fp]) (snd (LRU_get s fp))"
  using assms set_LRU_get [of s fp] by (fastforce simp: LRU_stored_def)

lemma LRU_stored_run: "LRU_stored ops (LRU_run (LRU_constructor n) ops)"
proof (induction ops rule: rev_induct)
  case Nil
  show ?case by (simp add: LRU_stored_def LRU_constructor_def)
next
  case (snoc x ops)
  then show ?case
    by (cases x) (simp_all add: LRU_run_snoc LRU_stored_add LRU_stored_get)
qed

lemma LRU_get_Some:
  "fst (LRU_get s fp) = Some v \<Longrightarrow> \<exists>arr. (fst fp, arr) \<in> set (LRU_map s) \<and> arr (snd fp) = Some v"
  by (auto simp: LRU_get_def Map_get_def Let_def split: option.splits dest: map_of_SomeD)

lemma LRU_get_never_stored:
  assumes "\<forall>v. OpAdd fp v \<notin> set ops"
  shows "fst (LRU_get (LRU_run (LRU_constructor n) ops) fp) = None"
proof (rule ccontr)
  assume "fst (LRU_get (LRU_run (LRU_constructor n) ops) fp) \<noteq> None"
  then obtain v where "fst (LRU_get (LRU_run (LRU_constructor n) ops) fp) = Some v"
    by auto
  from LRU_get_Some [OF this] LRU_stored_run [of ops n]
  have "OpAdd (fst fp, snd fp) v \<in> set ops"
    by (fastforce simp: LRU_stored_def)
  with assms show False by simp
qed

lemma Cache_get_never_stored:
  assumes "\<forall>v. OpAdd fp v \<notin> set ops"
  shows "Cache_get (Cache_run (Cache_constructor n) ops) fp = None"
proof (rule ccontr)
  assume "Cache_get (Cache_run (Cache_constructor n) ops) fp \<noteq> None"
  then obtain v where "Cache_get (Cache_run (Cache_constructor n) ops) fp = Some v"
    by auto
  with Cache_stored_run [of ops n] have "OpAdd fp v \<in> set ops"
    unfolding Cache_stored_def by blast
  with assms show False by simp
qed

lemma notin_tl: "l \<notin> fst ` set xs \<Longrightarrow> l \<notin> fst ` set (tl xs)"
  by (cases xs) auto

lemma map_of_snoc_new: "l \<notin> fst ` set xs \<Longrightarrow> map_of (xs @ [(l, a)]) l = Some a"
  by (induction xs) auto

lemma LRU_get_add_same:
  assumes inv: "LRU_inv ops s" and pos: "0 < LRU_maxSize s"
  shows "fst (LRU_get (LRU_add s fp val) fp) = Some val"
proof -
  let ?D = "Map_delete (LRU_map s) (fst fp)"
  let ?a = "(case Map_get (LRU_map s) (fst fp) of Some arr \<Rightarrow> arr | None \<Rightarrow> Map.empty)
       (snd fp \<mapsto> val)"
  let ?m1 = "inserted (LRU_map s) fp val"
  have m1: "?m1 = ?D @ [(fst fp, ?a)]" by (simp add: inserted_def)
  from inv have "distinct (Map_keys (LRU_map s))" by (simp add: LRU_inv_def)
  then have d1: "distinct (Map_keys ?m1)"
    by (simp add: Map_keys_inserted distinct_removeAll)
  have notin: "fst fp \<notin> fst ` set ?D" by (auto simp: Map_delete_def)
  have "\<exists>xs. LRU_map (LRU_add s fp val) = xs @ [(fst fp, ?a)] \<and> fst fp \<notin> fst ` set xs"
  proof (cases "LRU_maxSize s < int (length ?m1)")
    case True
    with pos have "1 < int (length ?m1)" by linarith
    then have "?D \<noteq> []" unfolding m1 by auto
    then have "tl ?m1 = tl ?D @ [(fst fp, ?a)]" by (simp add: m1)
    moreover have "fst fp \<notin> fst ` set (tl ?D)"
      using notin by (rule notin_tl)
    moreover from True have "LRU_map (LRU_add s fp val) = tl ?m1"
      by (simp add: LRU_add_inserted Map_delete_hd d1)
    ultimately show ?thesis by simp
  next
    case False
    then have "LRU_map (LRU_add s fp val) = ?m1" by (simp add: LRU_add_inserted)
    with m1 notin show ?thesis by simp
  qed
  then obtain xs where eq: "LRU_map (LRU_add s fp val) = xs @ [(fst fp, ?a)]"
    and nin: "fst fp \<notin> fst ` set xs" by blast
  from nin have "map_of (xs @ [(fst fp, ?a)]) (fst fp) = Some ?a"
    by (rule map_of_snoc_new)
  then have "Map_get (LRU_map (LRU_add s fp val)) (fst fp) = Some ?a"
    by (simp only: eq Map_get_def)
  then show ?thesis by (simp add: LRU_get_def Let_def)
qed

lemma LRU_add_occupied_size:
  assumes inv: "LRU_inv ops s" and occ: "fst (LRU_get s fp) \<noteq> None"
  shows "LRU_size (LRU_add s fp val) = LRU_size s"
proof -
  from occ have "Map_get (LRU_map s) (fst fp) \<noteq> None"
    by (auto simp: LRU_get_def Let_def split: option.splits)
  then have mem: "fst fp \<in> set (Map_keys (LRU_map s))"
    by (simp add: Map_get_None_iff)
  from inv have d: "distinct (Map_keys (LRU_map s))" by (simp add: LRU_inv_def)
  from LRU_add_no_overflow [OF inv, of fp val] mem
  have "LRU_map (LRU_add s fp val) = inserted (LRU_map s) fp val" by simp
  with mem d show ?thesis
    by (simp add: LRU_size_def Map_size_def length_inserted)
qed

lemma LRU_never_stores:
  assumes "n \<le> 0"
  shows "LRU_map (LRU_run (LRU_constructor n) ops) = []"
proof -
  let ?m = "LRU_map (LRU_run (LRU_constructor n) ops)"
  from LRU_inv_run [of ops n] have "?m = [] \<or> int (length ?m) \<le> n"
    by (simp add: LRU_inv_def LRU_constructor_def)
  with assms have "?m = [] \<or> length ?m = 0" by linarith
  then show ?thesis by simp
qed

subsection \<open>Claims about both caches\<close>

text \<open>
  C3 (amended). Adding at a (low, high) where an entry is stored leaves \<^verbatim>\<open>size()\<close>
  unchanged in the LRU, in every state reached from the constructor, and in the Cache
  whenever \<^verbatim>\<open>size()\<close> differs from \<^verbatim>\<open>maxSize\<close>. In a Cache whose \<^verbatim>\<open>size()\<close> equals
  \<^verbatim>\<open>maxSize\<close> the add first drops every entry, and \<^verbatim>\<open>size()\<close> becomes 1. As the claim is
  written (size unchanged in both caches, in every reachable state with the slot
  occupied) it fails on a full Cache of \<^verbatim>\<open>maxSize\<close> 2: the counterexample after the
  witness.
\<close>

theorem add_at_occupied_slot_size:
  fixes ops :: "'e op list" and c :: "'e Cache" and val :: 'e
  shows
   "(fst (LRU_get (LRU_run (LRU_constructor n) ops) fp) \<noteq> None \<longrightarrow>
       LRU_size (LRU_add (LRU_run (LRU_constructor n) ops) fp val) =
         LRU_size (LRU_run (LRU_constructor n) ops)) \<and>
    (Cache_get c fp \<noteq> None \<and> Cache_size c \<noteq> Cache_maxSize c \<longrightarrow>
       Cache_size (Cache_add c fp val) = Cache_size c) \<and>
    (Cache_get c fp \<noteq> None \<and> Cache_size c = Cache_maxSize c \<longrightarrow>
       Cache_size (Cache_add c fp val) = 1)"
proof (intro conjI impI)
  assume "fst (LRU_get (LRU_run (LRU_constructor n) ops) fp) \<noteq> None"
  with LRU_inv_run [of ops n]
  show "LRU_size (LRU_add (LRU_run (LRU_constructor n) ops) fp val) =
      LRU_size (LRU_run (LRU_constructor n) ops)"
    by (rule LRU_add_occupied_size)
next
  assume "Cache_get c fp \<noteq> None \<and> Cache_size c \<noteq> Cache_maxSize c"
  then show "Cache_size (Cache_add c fp val) = Cache_size c"
    by (simp add: size_add Cache_get_None_iff)
next
  assume "Cache_get c fp \<noteq> None \<and> Cache_size c = Cache_maxSize c"
  then show "Cache_size (Cache_add c fp val) = 1"
    by (simp add: size_add)
qed

theorem add_at_occupied_slot_size_witness:
  "fst (LRU_get (LRU_run (LRU_constructor 2)
     [OpAdd (1, 1) (Score 5 :: unit Entry), OpAdd (2, 2) (Score 6)]) (1, 1)) = Some (Score 5) \<and>
   LRU_size (LRU_run (LRU_constructor 2)
     [OpAdd (1, 1) (Score 5 :: unit Entry), OpAdd (2, 2) (Score 6)]) = 2 \<and>
   LRU_size (LRU_add (LRU_run (LRU_constructor 2)
     [OpAdd (1, 1) (Score 5 :: unit Entry), OpAdd (2, 2) (Score 6)]) (1, 1) (Score 7)) = 2 \<and>
   Cache_get (Cache_run (Cache_constructor 3)
     [OpAdd (1, 1) (Score 5 :: unit Entry), OpAdd (2, 2) (Score 6)]) (1, 1) = Some (Score 5) \<and>
   Cache_size (Cache_run (Cache_constructor 3)
     [OpAdd (1, 1) (Score 5 :: unit Entry), OpAdd (2, 2) (Score 6)]) = 2 \<and>
   Cache_maxSize (Cache_run (Cache_constructor 3)
     [OpAdd (1, 1) (Score 5 :: unit Entry), OpAdd (2, 2) (Score 6)]) = 3 \<and>
   Cache_size (Cache_add (Cache_run (Cache_constructor 3)
     [OpAdd (1, 1) (Score 5 :: unit Entry), OpAdd (2, 2) (Score 6)]) (1, 1) (Score 7)) = 2 \<and>
   Cache_get (Cache_run (Cache_constructor 1)
     [OpAdd (1, 1) (Score 5 :: unit Entry)]) (1, 1) = Some (Score 5) \<and>
   Cache_size (Cache_run (Cache_constructor 1) [OpAdd (1, 1) (Score 5 :: unit Entry)]) = 1 \<and>
   Cache_maxSize (Cache_run (Cache_constructor 1) [OpAdd (1, 1) (Score 5 :: unit Entry)]) = 1 \<and>
   Cache_size (Cache_add (Cache_run (Cache_constructor 1)
     [OpAdd (1, 1) (Score 5 :: unit Entry)]) (1, 1) (Score 7)) = 1"
proof -
  let ?ops = "[OpAdd (1, 1) (Score 5 :: unit Entry), OpAdd (2, 2) (Score 6)]"
  let ?s = "LRU_run (LRU_constructor 2) ?ops"
  let ?c = "Cache_run (Cache_constructor 3) ?ops"
  let ?d = "Cache_run (Cache_constructor 1) [OpAdd (1, 1) (Score 5 :: unit Entry)]"
  have g: "fst (LRU_get ?s (1, 1)) = Some (Score 5)"
    by (simp add: LRU_constructor_def LRU_add_def LRU_get_def Map_get_def Map_delete_def
        Map_size_def Map_first_key_def)
  have sz: "LRU_size ?s = 2"
    by (simp add: LRU_constructor_def LRU_add_def LRU_get_def Map_get_def Map_delete_def
        Map_size_def Map_first_key_def LRU_size_def)
  have cg: "Cache_get ?c (1, 1) = Some (Score 5)"
    by (simp add: Cache_constructor_def Cache_add_def Cache_get_def)
  have cs: "Cache_size ?c = 2" and cm: "Cache_maxSize ?c = 3"
    by (simp_all add: Cache_constructor_def Cache_add_def Cache_size_def)
  have dg: "Cache_get ?d (1, 1) = Some (Score 5)"
    by (simp add: Cache_constructor_def Cache_add_def Cache_get_def)
  have ds: "Cache_size ?d = 1" and dm: "Cache_maxSize ?d = 1"
    by (simp_all add: Cache_constructor_def Cache_add_def Cache_size_def)
  from add_at_occupied_slot_size [of 2 ?ops "(1, 1)" "Score 7" ?c] g sz cg cs cm
  have 1: "LRU_size (LRU_add ?s (1, 1) (Score 7)) = 2"
    and 2: "Cache_size (Cache_add ?c (1, 1) (Score 7)) = 2"
    by simp_all
  from add_at_occupied_slot_size [of 2 ?ops "(1, 1)" "Score 7" ?d] dg ds dm
  have 3: "Cache_size (Cache_add ?d (1, 1) (Score 7)) = 1"
    by simp
  from g sz 1 cg cs cm 2 dg ds dm 3 show ?thesis by blast
qed

theorem add_at_occupied_slot_counterexample:
  "Cache_get (Cache_run (Cache_constructor 2)
     [OpAdd (1, 1) (Score 5 :: unit Entry), OpAdd (2, 2) (Score 6)]) (1, 1) = Some (Score 5) \<and>
   Cache_size (Cache_run (Cache_constructor 2)
     [OpAdd (1, 1) (Score 5 :: unit Entry), OpAdd (2, 2) (Score 6)]) = 2 \<and>
   Cache_size (Cache_add (Cache_run (Cache_constructor 2)
     [OpAdd (1, 1) (Score 5 :: unit Entry), OpAdd (2, 2) (Score 6)]) (1, 1) (Score 7)) = 1"
  by (simp add: Cache_constructor_def Cache_add_def Cache_get_def Cache_size_def)

text \<open>
  C9. In both caches, get at a hash that no add was called with returns the absent
  result \<open>None\<close> (get has no failing branch), and an entry read back after its add is
  \<open>Some\<close> of it, so never the absent result: in particular the score zero. For the LRU
  the entry is read back when \<^verbatim>\<open>maxSize\<close> is positive.
\<close>

theorem get_never_stored_absent:
  fixes ops ops' :: "'m Entry op list" and c :: "'m Entry Cache" and val :: "'m Entry"
  shows
   "((\<forall>v. OpAdd fp v \<notin> set ops) \<longrightarrow>
       fst (LRU_get (LRU_run (LRU_constructor n) ops) fp) = None \<and>
       Cache_get (Cache_run (Cache_constructor n) ops) fp = None) \<and>
    Cache_get (Cache_add c fp' val) fp' = Some val \<and>
    Cache_get (Cache_add c fp' (Score 0)) fp' = Some (Score 0) \<and>
    Cache_get (Cache_add c fp' (Score 0)) fp' \<noteq> None \<and>
    (0 < k \<longrightarrow>
       fst (LRU_get (LRU_add (LRU_run (LRU_constructor k) ops') fp' val) fp') = Some val \<and>
       fst (LRU_get (LRU_add (LRU_run (LRU_constructor k) ops') fp' (Score 0)) fp') =
         Some (Score 0) \<and>
       fst (LRU_get (LRU_add (LRU_run (LRU_constructor k) ops') fp' (Score 0)) fp') \<noteq> None)"
proof (intro conjI impI)
  assume never: "\<forall>v. OpAdd fp v \<notin> set ops"
  then show "fst (LRU_get (LRU_run (LRU_constructor n) ops) fp) = None"
    by (rule LRU_get_never_stored)
  from never show "Cache_get (Cache_run (Cache_constructor n) ops) fp = None"
    by (rule Cache_get_never_stored)
next
  show "Cache_get (Cache_add c fp' val) fp' = Some val"
    and z: "Cache_get (Cache_add c fp' (Score 0)) fp' = Some (Score 0)"
    by (rule Cache_get_add_same)+
  from z show "Cache_get (Cache_add c fp' (Score 0)) fp' \<noteq> None" by simp
next
  assume k: "0 < k"
  have inv: "LRU_inv ops' (LRU_run (LRU_constructor k) ops')" by (rule LRU_inv_run)
  have mx: "0 < LRU_maxSize (LRU_run (LRU_constructor k) ops' :: 'm Entry LRU)"
    using k by (simp add: LRU_constructor_def)
  show "fst (LRU_get (LRU_add (LRU_run (LRU_constructor k) ops') fp' val) fp') = Some val"
    using inv mx by (rule LRU_get_add_same)
  show z: "fst (LRU_get (LRU_add (LRU_run (LRU_constructor k) ops') fp' (Score 0)) fp') =
      Some (Score 0)"
    using inv mx by (rule LRU_get_add_same)
  from z show "fst (LRU_get (LRU_add (LRU_run (LRU_constructor k) ops') fp' (Score 0)) fp') \<noteq> None"
    by simp
qed

theorem get_never_stored_absent_witness:
  "OpAdd (1, 2) (Score 0) \<notin> set [OpAdd (1, 1) (Score 5 :: unit Entry), OpGet (1, 2), OpAdd (2, 2) (Score 6)] \<and>
   fst (LRU_get (LRU_run (LRU_constructor 2)
     [OpAdd (1, 1) (Score 5 :: unit Entry), OpGet (1, 2), OpAdd (2, 2) (Score 6)]) (1, 2)) = None \<and>
   Cache_get (Cache_run (Cache_constructor 2)
     [OpAdd (1, 1) (Score 5 :: unit Entry), OpGet (1, 2), OpAdd (2, 2) (Score 6)]) (1, 2) = None \<and>
   (0::int) < 2 \<and>
   fst (LRU_get (LRU_add (LRU_run (LRU_constructor 2)
     [OpAdd (1, 1) (Score 5 :: unit Entry), OpGet (1, 2), OpAdd (2, 2) (Score 6)])
       (1, 2) (Score 0)) (1, 2)) = Some (Score 0)"
proof -
  let ?ops = "[OpAdd (1, 1) (Score 5 :: unit Entry), OpGet (1, 2), OpAdd (2, 2) (Score 6)]"
  have never: "\<forall>v. OpAdd (1, 2) v \<notin> set ?ops" by simp
  have pos: "(0::int) < 2" by simp
  from get_never_stored_absent [of "(1, 2)" ?ops 2 "Cache_constructor 2" "(1, 2)" "Score 0" 2 ?ops] never pos
  show ?thesis by blast
qed

text \<open>
  C4 (amended). Neither constructor rejects a non-positive maximum size: for every
  \<^verbatim>\<open>maxSize\<close> the construction returns an empty cache object holding that value. With
  \<^verbatim>\<open>maxSize\<close> at most 0 the LRU never keeps a group, and the Cache stores the first entry
  added. As the claim is written (construction fails for every \<^verbatim>\<open>maxSize\<close> at most 0) it
  fails at 0 and at -1: the counterexample after the witness.
\<close>

theorem constructors_accept_any_size:
  fixes ops :: "'e op list" and val :: 'e
  shows
   "new_LRU n = (Inr (LRU_constructor n) :: error + 'e LRU) \<and>
    new_Cache n = (Inr (Cache_constructor n) :: error + 'e Cache) \<and>
    LRU_size (LRU_constructor n :: 'e LRU) = 0 \<and>
    LRU_maxSize (LRU_constructor n :: 'e LRU) = n \<and>
    Cache_size (Cache_constructor n :: 'e Cache) = 0 \<and>
    Cache_maxSize (Cache_constructor n :: 'e Cache) = n \<and>
    (n \<le> 0 \<longrightarrow>
       LRU_size (LRU_run (LRU_constructor n) ops) = 0 \<and>
       Cache_size (Cache_add (Cache_constructor n) fp val) = 1 \<and>
       Cache_get (Cache_add (Cache_constructor n) fp val) fp = Some val)"
  by (simp add: new_LRU_def new_Cache_def LRU_never_stores LRU_size_def Map_size_def
      size_add Cache_get_add_same)
    (simp add: LRU_constructor_def Cache_constructor_def Cache_size_def)

theorem constructors_accept_any_size_witness:
  "(0::int) \<le> 0 \<and>
   new_LRU 0 = (Inr \<lparr>LRU_map = [], LRU_maxSize = 0\<rparr> :: error + unit Entry LRU) \<and>
   LRU_size (LRU_run (LRU_constructor 0) [OpAdd (1, 1) (Score 5 :: unit Entry)]) = 0 \<and>
   Cache_size (Cache_add (Cache_constructor 0) (1, 1) (Score 5 :: unit Entry)) = 1"
  using constructors_accept_any_size [of 0 "[OpAdd (1, 1) (Score 5 :: unit Entry)]" "(1, 1)" "Score 5"]
  by (simp add: LRU_constructor_def)

theorem constructors_reject_counterexample:
  "new_LRU 0 = (Inr \<lparr>LRU_map = [], LRU_maxSize = 0\<rparr> :: error + unit Entry LRU) \<and>
   new_Cache (- 1) =
     (Inr \<lparr>Cache_cache = Map.empty, Cache_maxSize = - 1, Cache_currentSize = 0\<rparr>
       :: error + unit Entry Cache)"
  by (simp add: new_LRU_def new_Cache_def LRU_constructor_def Cache_constructor_def)

section \<open>Properties of the hashing\<close>

subsection \<open>hash applies the keys of the features in order\<close>

lemma apply_all_Nil [simp]: "apply_all [] s = Inr s"
  by (simp add: apply_all_def)

lemma apply_all_Cons:
  "apply_all (k # ks) s = (case applyHashes k s of Inl e \<Rightarrow> Inl e | Inr s' \<Rightarrow> apply_all ks s')"
  unfolding apply_all_def by simp

lemma apply_all_append:
  "apply_all (ks @ ks') s = (case apply_all ks s of Inl e \<Rightarrow> Inl e | Inr s' \<Rightarrow> apply_all ks' s')"
  by (induction ks arbitrary: s) (simp_all add: apply_all_Cons split: sum.splits)

lemma applyHashes_globals:
  "applyHashes k s = Inr s' \<Longrightarrow> st_hashes s' = st_hashes s \<and> st_pos s' = st_pos s"
  by (auto simp: applyHashes_def split: option.splits)

lemma apply_all_globals:
  "apply_all ks s = Inr s' \<Longrightarrow> st_hashes s' = st_hashes s \<and> st_pos s' = st_pos s"
proof (induction ks arbitrary: s)
  case Nil
  then show ?case by simp
next
  case (Cons k ks)
  then show ?case
    by (auto simp: apply_all_Cons split: sum.splits dest!: applyHashes_globals)
qed

lemma xor_key_pair: "xor_key (x, y) k = (x XOR fst k, y XOR snd k)"
  by (simp add: xor_key_def)

lemma apply_all_char:
  "apply_all ks s =
     (if None \<in> set ks then Inl TypeError
      else Inr (s\<lparr>low := fst (foldl xor_key (low s, high s) (map the ks)),
                  high := snd (foldl xor_key (low s, high s) (map the ks))\<rparr>))"
proof (induction ks arbitrary: s)
  case Nil
  show ?case by simp
next
  case (Cons k ks)
  show ?case
  proof (cases k)
    case None
    then show ?thesis by (simp add: apply_all_Cons applyHashes_def)
  next
    case (Some a)
    then show ?thesis
      by (simp add: apply_all_Cons applyHashes_def Cons.IH xor_key_pair)
  qed
qed

lemma hash_squares_apply_all:
  "hash_squares i s =
     apply_all (concat (map (square_keys (st_hashes s) (st_pos s)) [i..<64])) s"
proof (induction i s rule: hash_squares.induct)
  case (1 i s)
  show ?case
  proof (cases "i < 64")
    case False
    then show ?thesis by (simp add: hash_squares.simps [of i s])
  next
    case True
    then have upt: "[i..<64] = i # [Suc i..<64]" by (simp add: upt_conv_Cons)
    show ?thesis
    proof (cases "js_index (board (st_pos s)) (int i)")
      case None
      with True 1(1) [OF True None] show ?thesis
        by (simp add: hash_squares.simps [of i s] upt square_keys_def)
    next
      case (Some sq)
      show ?thesis
      proof (cases sq)
        case None
        with Some True 1(2) [OF True Some None] show ?thesis
          by (simp add: hash_squares.simps [of i s] upt square_keys_def)
      next
        case p: (Some p)
        show ?thesis
        proof (cases "applyHashes (js_index (hashes_piece (st_hashes s) p) (int i)) s")
          case (Inl e)
          with Some p True show ?thesis
            by (simp add: hash_squares.simps [of i s] upt square_keys_def apply_all_Cons)
        next
          case (Inr s')
          from applyHashes_globals [OF Inr] 1(3) [OF True Some p Inr] Some p True Inr
          show ?thesis
            by (simp add: hash_squares.simps [of i s] upt square_keys_def apply_all_Cons)
        qed
      qed
    qed
  qed
qed

lemma seq_step:
  assumes "\<And>s. st_hashes s = h \<Longrightarrow> st_pos s = pos \<Longrightarrow> f s = apply_all K s"
    and "\<And>s. st_hashes s = h \<Longrightarrow> st_pos s = pos \<Longrightarrow> seq fs s = apply_all Ks s"
    and "st_hashes s = h" and "st_pos s = pos"
  shows "seq (f # fs) s = apply_all (K @ Ks) s"
proof (cases "apply_all K s")
  case (Inl e)
  with assms(1,3,4) show ?thesis by (simp add: apply_all_append)
next
  case (Inr s')
  from apply_all_globals [OF Inr] assms(3,4) have "st_hashes s' = h" "st_pos s' = pos"
    by simp_all
  with assms(2) have "seq fs s' = apply_all Ks s'" by simp
  with Inr assms(1,3,4) show ?thesis by (simp add: apply_all_append)
qed

lemma seq_last:
  assumes "\<And>s. st_hashes s = h \<Longrightarrow> st_pos s = pos \<Longrightarrow> f s = apply_all K s"
    and "st_hashes s = h" and "st_pos s = pos"
  shows "seq [f] s = apply_all K s"
  using assms by (simp split: sum.splits)

lemma if_applyHashes:
  "(if b then applyHashes k s else Inr s) = apply_all (if b then [k] else []) s"
  by (simp add: apply_all_Cons split: sum.splits)

lemma hash_body_apply_all:
  "hash_body s = apply_all (applied_keys (st_hashes s) (st_pos s)) s"
  unfolding hash_body_def applied_keys_def
proof (rule seq_step [where h = "st_hashes s" and pos = "st_pos s"])
  fix t :: "('a, 'b) hash_state"
  assume g: "st_hashes t = st_hashes s" "st_pos t = st_pos s"
  show "applyHashes (hashes_turn (st_hashes t) (turn (st_pos t))) t =
      apply_all [hashes_turn (st_hashes s) (turn (st_pos s))] t"
    using g by (simp add: apply_all_Cons split: sum.splits)
  show "seq
      [hash_squares 0,
       \<lambda>s. if fst (wc (st_pos s)) then applyHashes (js_index (hashes_wc (st_hashes s)) 0) s
           else Inr s,
       \<lambda>s. if snd (wc (st_pos s)) then applyHashes (js_index (hashes_wc (st_hashes s)) 1) s
           else Inr s,
       \<lambda>s. if fst (bc (st_pos s)) then applyHashes (js_index (hashes_bc (st_hashes s)) 0) s
           else Inr s,
       \<lambda>s. if snd (bc (st_pos s)) then applyHashes (js_index (hashes_bc (st_hashes s)) 1) s
           else Inr s,
       \<lambda>s. if ep (st_pos s) \<noteq> - 1
           then applyHashes (js_index (hashes_epFile (st_hashes s)) (js_rem (ep (st_pos s)) 8)) s
           else Inr s] t =
     apply_all
      (concat (map (square_keys (st_hashes s) (st_pos s)) [0..<64]) @
       (if fst (wc (st_pos s)) then [js_index (hashes_wc (st_hashes s)) 0] else []) @
       (if snd (wc (st_pos s)) then [js_index (hashes_wc (st_hashes s)) 1] else []) @
       (if fst (bc (st_pos s)) then [js_index (hashes_bc (st_hashes s)) 0] else []) @
       (if snd (bc (st_pos s)) then [js_index (hashes_bc (st_hashes s)) 1] else []) @
       (if ep (st_pos s) \<noteq> - 1
        then [js_index (hashes_epFile (st_hashes s)) (js_rem (ep (st_pos s)) 8)] else [])) t"
  proof (rule seq_step [where h = "st_hashes s" and pos = "st_pos s"])
    fix u :: "('a, 'b) hash_state"
    assume "st_hashes u = st_hashes s" "st_pos u = st_pos s"
    then show "hash_squares 0 u =
        apply_all (concat (map (square_keys (st_hashes s) (st_pos s)) [0..<64])) u"
      by (simp add: hash_squares_apply_all)
  next
    fix u :: "('a, 'b) hash_state"
    assume g: "st_hashes u = st_hashes s" "st_pos u = st_pos s"
    show "seq
      [\<lambda>s. if fst (wc (st_pos s)) then applyHashes (js_index (hashes_wc (st_hashes s)) 0) s
           else Inr s,
       \<lambda>s. if snd (wc (st_pos s)) then applyHashes (js_index (hashes_wc (st_hashes s)) 1) s
           else Inr s,
       \<lambda>s. if fst (bc (st_pos s)) then applyHashes (js_index (hashes_bc (st_hashes s)) 0) s
           else Inr s,
       \<lambda>s. if snd (bc (st_pos s)) then applyHashes (js_index (hashes_bc (st_hashes s)) 1) s
           else Inr s,
       \<lambda>s. if ep (st_pos s) \<noteq> - 1
           then applyHashes (js_index (hashes_epFile (st_hashes s)) (js_rem (ep (st_pos s)) 8)) s
           else Inr s] u =
     apply_all
      ((if fst (wc (st_pos s)) then [js_index (hashes_wc (st_hashes s)) 0] else []) @
       (if snd (wc (st_pos s)) then [js_index (hashes_wc (st_hashes s)) 1] else []) @
       (if fst (bc (st_pos s)) then [js_index (hashes_bc (st_hashes s)) 0] else []) @
       (if snd (bc (st_pos s)) then [js_index (hashes_bc (st_hashes s)) 1] else []) @
       (if ep (st_pos s) \<noteq> - 1
        then [js_index (hashes_epFile (st_hashes s)) (js_rem (ep (st_pos s)) 8)] else [])) u"
      by (rule seq_step [where h = "st_hashes s" and pos = "st_pos s"],
          simp add: if_applyHashes,
          rule seq_step [where h = "st_hashes s" and pos = "st_pos s"],
          simp add: if_applyHashes,
          rule seq_step [where h = "st_hashes s" and pos = "st_pos s"],
          simp add: if_applyHashes,
          rule seq_step [where h = "st_hashes s" and pos = "st_pos s"],
          simp add: if_applyHashes,
          rule seq_last [where h = "st_hashes s" and pos = "st_pos s"],
          simp add: if_applyHashes)
        (simp_all add: g)
  qed (simp_all add: g)
qed simp_all

lemma hash_run_char:
  "hash_run hashes pos =
     (if None \<in> set (applied_keys hashes pos) then Inl TypeError
      else Inr \<lparr>st_hashes = hashes, st_pos = pos,
                low = fst (foldl xor_key (0, 0) (map the (applied_keys hashes pos))),
                high = snd (foldl xor_key (0, 0) (map the (applied_keys hashes pos)))\<rparr>)"
  by (simp add: hash_run_def hash_body_apply_all apply_all_char)

lemma hash_char:
  "hash hashes pos =
     (if None \<in> set (applied_keys hashes pos) then Inl TypeError
      else Inr (foldl xor_key (0, 0) (map the (applied_keys hashes pos))))"
  by (simp add: hash_def hash_run_char)

lemma js_rem_nonneg: "0 \<le> a \<Longrightarrow> js_rem a 8 = a mod 8"
  by (cases "a = 0") (simp_all add: js_rem_def)

lemma applied_keys_feature_keys:
  "- 1 \<le> ep pos \<Longrightarrow> applied_keys hashes pos = feature_keys hashes pos"
  by (cases "ep pos = - 1") (simp_all add: applied_keys_def feature_keys_def js_rem_nonneg)

lemma make_eq: "make g n = ((g n, g (Suc n)), Suc (Suc n))"
  by (simp add: make_def rand_def)

lemma makes_eq:
  "makes g k n = (map (\<lambda>i. (g (n + 2 * i), g (Suc (n + 2 * i)))) [0..<k], n + 2 * k)"
proof (induction k arbitrary: n)
  case 0
  show ?case by simp
next
  case (Suc k)
  show ?case
    by (simp add: make_eq Suc.IH map_upt_Suc del: upt_Suc)
qed

lemma init_piece_eq:
  "init_piece g (h, n) p =
     (h\<lparr>hashes_piece := (hashes_piece h)(p := fst (makes g 64 n)),
        hashes_turn := (\<lambda>c. None)(WHITE \<mapsto> (g (n + 128), g (n + 129)),
                                   BLACK \<mapsto> (g (n + 130), g (n + 131))),
        hashes_wc := [(g (n + 132), g (n + 133)), (g (n + 134), g (n + 135))],
        hashes_bc := [(g (n + 136), g (n + 137)), (g (n + 138), g (n + 139))],
        hashes_epFile := fst (makes g 8 (n + 140))\<rparr>, n + 156)"
  by (simp add: init_piece_def makes_eq make_eq Let_def add_ac)

lemma hashes_init_snoc:
  "hashes_init g (ps @ [p]) = init_piece g (hashes_init g ps) p"
  by (simp add: hashes_init_def)

lemma hashes_init_draws: "snd (hashes_init g ps) = 156 * length ps"
proof (induction ps rule: rev_induct)
  case Nil
  show ?case by (simp add: hashes_init_def)
next
  case (snoc p ps)
  then show ?case
    by (cases "hashes_init g ps") (simp add: hashes_init_snoc init_piece_eq)
qed

lemma hashes_init_last:
  "fst (hashes_init g (ps @ [p])) =
     (fst (hashes_init g ps))
       \<lparr>hashes_piece := (hashes_piece (fst (hashes_init g ps)))
          (p := fst (makes g 64 (156 * length ps))),
        hashes_turn := (\<lambda>c. None)
          (WHITE \<mapsto> (g (156 * length ps + 128), g (156 * length ps + 129)),
           BLACK \<mapsto> (g (156 * length ps + 130), g (156 * length ps + 131))),
        hashes_wc := [(g (156 * length ps + 132), g (156 * length ps + 133)),
                      (g (156 * length ps + 134), g (156 * length ps + 135))],
        hashes_bc := [(g (156 * length ps + 136), g (156 * length ps + 137)),
                      (g (156 * length ps + 138), g (156 * length ps + 139))],
        hashes_epFile := fst (makes g 8 (156 * length ps + 140))\<rparr>"
  using hashes_init_draws [of g ps]
  by (cases "hashes_init g ps") (simp add: hashes_init_snoc init_piece_eq)

lemma length_makes: "length (fst (makes g k n)) = k"
  by (simp add: makes_eq)

lemma hashes_init_piece_length:
  "p \<in> set ps \<Longrightarrow> length (hashes_piece (fst (hashes_init g ps)) p) = 64"
proof (induction ps rule: rev_induct)
  case Nil
  then show ?case by simp
next
  case (snoc q ps)
  then show ?case
    by (cases "p = q") (simp_all add: hashes_init_last length_makes)
qed

lemma hashes_init_defined:
  assumes "ps \<noteq> []"
  shows "hashes_turn (fst (hashes_init g ps)) c \<noteq> None"
    and "length (hashes_wc (fst (hashes_init g ps))) = 2"
    and "length (hashes_bc (fst (hashes_init g ps))) = 2"
    and "length (hashes_epFile (fst (hashes_init g ps))) = 8"
proof -
  from assms obtain qs q where ps: "ps = qs @ [q]"
    by (cases ps rule: rev_cases) auto
  show "hashes_turn (fst (hashes_init g ps)) c \<noteq> None"
    unfolding ps hashes_init_last by (cases c) simp_all
  show "length (hashes_wc (fst (hashes_init g ps))) = 2"
    unfolding ps hashes_init_last by simp
  show "length (hashes_bc (fst (hashes_init g ps))) = 2"
    unfolding ps hashes_init_last by simp
  show "length (hashes_epFile (fst (hashes_init g ps))) = 8"
    unfolding ps hashes_init_last by (simp add: length_makes)
qed

lemma js_index_Some: "0 \<le> i \<Longrightarrow> i < int (length xs) \<Longrightarrow> js_index xs i \<noteq> None"
  by (simp add: js_index_def)

lemma js_index_board:
  assumes "js_index b i = Some (Some p)"
  shows "Some p \<in> set b"
proof -
  from assms have "0 \<le> i" "i < int (length b)" "b ! nat i = Some p"
    by (simp_all add: js_index_def split: if_splits)
  then have "nat i < length b" by simp
  then have "b ! nat i \<in> set b" by (rule nth_mem)
  with \<open>b ! nat i = Some p\<close> show ?thesis by simp
qed

lemma feature_keys_defined:
  assumes ps: "ps \<noteq> []"
    and pieces: "\<forall>p. Some p \<in> set (board pos) \<longrightarrow> p \<in> set ps"
  shows "None \<notin> set (feature_keys (fst (hashes_init g ps)) pos)"
proof -
  let ?h = "fst (hashes_init g ps)"
  note d = hashes_init_defined [OF ps, of g]
  have sq: "None \<notin> set (square_keys ?h pos i)" if "i < 64" for i
  proof (cases "js_index (board pos) (int i)")
    case None
    then show ?thesis by (simp add: square_keys_def)
  next
    case (Some sq)
    show ?thesis
    proof (cases sq)
      case None
      with Some show ?thesis by (simp add: square_keys_def)
    next
      case p: (Some p)
      with Some pieces have "p \<in> set ps" by (auto dest: js_index_board)
      then have "length (hashes_piece ?h p) = 64" by (rule hashes_init_piece_length)
      with that have "js_index (hashes_piece ?h p) (int i) \<noteq> None"
        by (simp add: js_index_def)
      with Some p show ?thesis by (auto simp: square_keys_def)
    qed
  qed
  have "0 \<le> ep pos mod 8" "ep pos mod 8 < 8" by simp_all
  then have e: "js_index (hashes_epFile ?h) (ep pos mod 8) \<noteq> None"
    using d(4) by (simp add: js_index_def)
  have w: "js_index (hashes_wc ?h) 0 \<noteq> None" "js_index (hashes_wc ?h) 1 \<noteq> None"
    "js_index (hashes_bc ?h) 0 \<noteq> None" "js_index (hashes_bc ?h) 1 \<noteq> None"
    using d(2,3) by (simp_all add: js_index_def)
  from sq have "None \<notin> set (concat (map (square_keys ?h pos) [0..<64]))"
    by auto
  with d(1) [of "turn pos"] e w show ?thesis
    by (auto simp: feature_keys_def)
qed

lemma xor_key_swap: "xor_key (xor_key a k) y = xor_key (xor_key a y) k"
  by (simp add: xor_key_def xor.assoc xor.left_commute xor.commute)

lemma xor_key_twice: "xor_key (xor_key a k) k = a"
  by (cases a) (simp add: xor_key_def xor.assoc)

lemma foldl_xor_key_out: "foldl xor_key (xor_key a k) ys = xor_key (foldl xor_key a ys) k"
proof (induction ys arbitrary: a)
  case Nil
  show ?case by simp
next
  case (Cons y ys)
  have "foldl xor_key (xor_key a k) (y # ys) = foldl xor_key (xor_key (xor_key a y) k) ys"
    by (simp add: xor_key_swap)
  also have "\<dots> = xor_key (foldl xor_key (xor_key a y) ys) k"
    by (rule Cons.IH)
  finally show ?case by simp
qed

lemma foldl_xor_key_insert:
  "foldl xor_key a (xs @ k # ys) = xor_key (foldl xor_key a (xs @ ys)) k"
  by (simp add: foldl_xor_key_out)

lemma square_keys_wc: "square_keys hashes (pos\<lparr>wc := w\<rparr>) = square_keys hashes pos"
  by (rule ext) (simp add: square_keys_def)

lemma applied_keys_toggle_wc:
  fixes pos :: "('p, 'x) Position_scheme"
  shows "\<exists>xs ys.
     applied_keys hashes (if fst (wc pos) then pos else pos\<lparr>wc := (True, snd (wc pos))\<rparr>) =
       xs @ js_index (hashes_wc hashes) 0 # ys \<and>
     applied_keys hashes (if fst (wc pos) then pos\<lparr>wc := (False, snd (wc pos))\<rparr> else pos) =
       xs @ ys"
  by (rule exI [where x = "hashes_turn hashes (turn pos) #
        concat (map (square_keys hashes pos) [0..<64])"])
    (auto simp: applied_keys_def square_keys_wc)

lemma hash_toggle_wc:
  fixes pos :: "('p, 'x) Position_scheme"
  assumes k: "js_index (hashes_wc hashes) 0 = Some k"
    and fp: "hash hashes pos = Inr fp"
  shows "hash hashes (pos\<lparr>wc := (\<not> fst (wc pos), snd (wc pos))\<rparr>) = Inr (xor_key fp k)"
proof -
  from applied_keys_toggle_wc [of hashes pos] obtain xs ys
    where on: "applied_keys hashes (if fst (wc pos) then pos else pos\<lparr>wc := (True, snd (wc pos))\<rparr>) =
       xs @ js_index (hashes_wc hashes) 0 # ys"
      and off: "applied_keys hashes (if fst (wc pos) then pos\<lparr>wc := (False, snd (wc pos))\<rparr> else pos) =
       xs @ ys"
    by blast
  show ?thesis
  proof (cases "fst (wc pos)")
    case True
    with on off have a: "applied_keys hashes pos = xs @ Some k # ys"
      and b: "applied_keys hashes (pos\<lparr>wc := (False, snd (wc pos))\<rparr>) = xs @ ys"
      by (simp_all add: k)
    from fp have "None \<notin> set (xs @ Some k # ys)"
      and "fp = foldl xor_key (0, 0) (map the (xs @ Some k # ys))"
      by (simp_all add: hash_char a split: if_splits)
    then have "None \<notin> set (xs @ ys)"
      and "xor_key fp k = foldl xor_key (0, 0) (map the (xs @ ys))"
      by (simp_all add: foldl_xor_key_out xor_key_twice)
    with True show ?thesis by (simp add: hash_char b)
  next
    case False
    with on off have a: "applied_keys hashes pos = xs @ ys"
      and b: "applied_keys hashes (pos\<lparr>wc := (True, snd (wc pos))\<rparr>) = xs @ Some k # ys"
      by (simp_all add: k)
    from fp have "None \<notin> set (xs @ ys)"
      and "fp = foldl xor_key (0, 0) (map the (xs @ ys))"
      by (simp_all add: hash_char a split: if_splits)
    then have "None \<notin> set (xs @ Some k # ys)"
      and "xor_key fp k = foldl xor_key (0, 0) (map the (xs @ Some k # ys))"
      by (simp_all add: foldl_xor_key_out)
    with False show ?thesis by (simp add: hash_char b)
  qed
qed
lemma square_keys_board:
  fixes p1 :: "('p, 'x) Position_scheme" and p2 :: "('p, 'y) Position_scheme"
  shows "board p1 = board p2 \<Longrightarrow> square_keys hashes p1 = square_keys hashes p2"
  by (rule ext) (simp add: square_keys_def)

lemma applied_keys_features:
  fixes p1 :: "('p, 'x) Position_scheme" and p2 :: "('p, 'y) Position_scheme"
  assumes "board p1 = board p2" "turn p1 = turn p2" "wc p1 = wc p2" "bc p1 = bc p2"
    "ep p1 = ep p2"
  shows "applied_keys hashes p1 = applied_keys hashes p2"
  using assms square_keys_board [of p1 p2 hashes] by (simp add: applied_keys_def)

subsection \<open>Claims about the table and hash\<close>

text \<open>
  C5. What the initialisation does: each iteration of \<^verbatim>\<open>pieces.forEach\<close> draws 156
  integers, 128 for the 64 keys of the piece and 28 for the keys of the turn, the
  castling rights and the en-passant files, which are inside the loop body. So these
  14 keys are generated again for every piece: with one piece the key of
  \<^verbatim>\<open>hashes.turn[WHITE]\<close> is the 129th and 130th integer drawn, with two pieces it is the
  285th and 286th, and 312 integers are drawn, not two for each of the 142 features.
\<close>

theorem hashes_init_regenerates:
  "snd (hashes_init g pieces) = 156 * length pieces \<and>
   hashes_turn (fst (hashes_init g [p])) WHITE = Some (g 128, g 129) \<and>
   hashes_turn (fst (hashes_init g [p, q])) WHITE = Some (g 284, g 285) \<and>
   hashes_wc (fst (hashes_init g [p])) = [(g 132, g 133), (g 134, g 135)] \<and>
   hashes_wc (fst (hashes_init g [p, q])) = [(g 288, g 289), (g 290, g 291)] \<and>
   snd (hashes_init g [p, q]) = 312"
  using hashes_init_last [of g "[]" p] hashes_init_last [of g "[p]" q]
  by (simp add: hashes_init_draws)

text \<open>
  C6. For every position, \<^verbatim>\<open>hash\<close> returns, from (0, 0), the exclusive or with the keys
  it looks up in order: that of the side to move, of each occupied square among the 64,
  of each castling right held and, when \<^verbatim>\<open>ep\<close> is not -1, of the en-passant file
  \<^verbatim>\<open>ep % 8\<close>; it throws when the table lacks one of them. For a position whose \<^verbatim>\<open>ep\<close> is
  -1 or not negative, \<^verbatim>\<open>ep % 8\<close> is \<^verbatim>\<open>ep\<close> modulo 8 and the result is the fingerprint as
  the specification words it. With the table that the initialisation builds from a list
  \<^verbatim>\<open>pieces\<close> that is not empty, and every occupied square holding one of these pieces, no
  key is lacking.
\<close>

theorem hash_computes_fingerprint:
  fixes pos :: "('p, 'x) Position_scheme"
  shows
   "hash hashes pos =
      (if None \<in> set (applied_keys hashes pos) then Inl TypeError
       else Inr (foldl xor_key (0, 0) (map the (applied_keys hashes pos)))) \<and>
    (- 1 \<le> ep pos \<longrightarrow>
       applied_keys hashes pos = feature_keys hashes pos \<and>
       hash hashes pos =
         (if None \<in> set (feature_keys hashes pos) then Inl TypeError
          else Inr (fingerprint_spec hashes pos)) \<and>
       (pieces \<noteq> [] \<and> (\<forall>p. Some p \<in> set (board pos) \<longrightarrow> p \<in> set pieces) \<longrightarrow>
          hash (fst (hashes_init g pieces)) pos =
            Inr (fingerprint_spec (fst (hashes_init g pieces)) pos)))"
proof (intro conjI impI)
  show "hash hashes pos =
      (if None \<in> set (applied_keys hashes pos) then Inl TypeError
       else Inr (foldl xor_key (0, 0) (map the (applied_keys hashes pos))))"
    by (rule hash_char)
next
  assume e: "- 1 \<le> ep pos"
  then show "applied_keys hashes pos = feature_keys hashes pos"
    by (rule applied_keys_feature_keys)
  from e show "hash hashes pos =
      (if None \<in> set (feature_keys hashes pos) then Inl TypeError
       else Inr (fingerprint_spec hashes pos))"
    by (simp add: hash_char applied_keys_feature_keys fingerprint_spec_def)
  assume "pieces \<noteq> [] \<and> (\<forall>p. Some p \<in> set (board pos) \<longrightarrow> p \<in> set pieces)"
  then have "None \<notin> set (feature_keys (fst (hashes_init g pieces)) pos)"
    by (simp add: feature_keys_defined)
  with e show "hash (fst (hashes_init g pieces)) pos =
      Inr (fingerprint_spec (fst (hashes_init g pieces)) pos)"
    by (simp add: hash_char applied_keys_feature_keys fingerprint_spec_def)
qed

theorem hash_computes_fingerprint_witness:
  "- 1 \<le> ep \<lparr>board = replicate 4 None @ [Some CHR ''K''] @ replicate 55 None @
        [Some CHR ''k''] @ replicate 3 None,
      turn = WHITE, wc = (True, False), bc = (False, True), ep = 20\<rparr> \<and>
   ''Kk'' \<noteq> [] \<and>
   set (board \<lparr>board = replicate 4 None @ [Some CHR ''K''] @ replicate 55 None @
        [Some CHR ''k''] @ replicate 3 None,
      turn = WHITE, wc = (True, False), bc = (False, True), ep = 20\<rparr>) =
     {None, Some CHR ''K'', Some CHR ''k''} \<and>
   feature_keys (fst (hashes_init (\<lambda>n. word_of_nat (n * n + 7)) ''Kk''))
     \<lparr>board = replicate 4 None @ [Some CHR ''K''] @ replicate 55 None @
        [Some CHR ''k''] @ replicate 3 None,
      turn = WHITE, wc = (True, False), bc = (False, True), ep = 20\<rparr> =
     [Some (80663, 81232), Some (71, 88), Some (76183, 76736), Some (82951, 83528),
      Some (86443, 87032), Some (92423, 93032)] \<and>
   hash (fst (hashes_init (\<lambda>n. word_of_nat (n * n + 7)) ''Kk''))
     \<lparr>board = replicate 4 None @ [Some CHR ''K''] @ replicate 55 None @
        [Some CHR ''k''] @ replicate 3 None,
      turn = WHITE, wc = (True, False), bc = (False, True), ep = 20\<rparr> =
     Inr (93804, 92176)"
proof -
  let ?pos = "\<lparr>board = replicate 4 None @ [Some CHR ''K''] @ replicate 55 None @
        [Some CHR ''k''] @ replicate 3 None,
      turn = WHITE, wc = (True, False), bc = (False, True), ep = 20\<rparr>"
  let ?g = "\<lambda>n. word_of_nat (n * n + 7) :: 32 word"
  have e: "- 1 \<le> ep ?pos" by simp
  have ps: "''Kk'' \<noteq> []" by simp
  have bs: "set (board ?pos) = {None, Some CHR ''K'', Some CHR ''k''}" by auto
  then have b: "\<forall>p. Some p \<in> set (board ?pos) \<longrightarrow> p \<in> set ''Kk''" by auto
  have ks: "feature_keys (fst (hashes_init ?g ''Kk'')) ?pos =
     [Some (80663, 81232), Some (71, 88), Some (76183, 76736), Some (82951, 83528),
      Some (86443, 87032), Some (92423, 93032)]"
    by (simp add: feature_keys_def square_keys_def js_index_def
        hashes_init_def init_piece_eq makes_eq hashes_empty_def nth_append
        upt_rec [of _ "numeral _"])
  have fp: "fingerprint_spec (fst (hashes_init ?g ''Kk'')) ?pos = (93804, 92176)"
    unfolding fingerprint_spec_def ks by (simp add: xor_key_def)
  from hash_computes_fingerprint [where pos = ?pos and pieces = "''Kk''" and g = ?g] e ps b
  have "hash (fst (hashes_init ?g ''Kk'')) ?pos =
      Inr (fingerprint_spec (fst (hashes_init ?g ''Kk'')) ?pos)"
    by blast
  with fp have "hash (fst (hashes_init ?g ''Kk'')) ?pos = Inr (93804, 92176)"
    by simp
  with e ps bs ks show ?thesis by blast
qed

text \<open>
  C7. Applying the same key twice restores \<^verbatim>\<open>low\<close> and \<^verbatim>\<open>high\<close>, for every state of
  \<^verbatim>\<open>hash\<close> and every key. Toggling the white queenside castling right of a position
  changes its fingerprint by the exclusive or with the key of that right, so toggling
  it off and on again gives the fingerprint of the position back.
\<close>

theorem xor_involution:
  fixes s :: "('p, 'x) hash_state" and pos :: "('p, 'y) Position_scheme"
  shows
   "seq [applyHashes (Some k), applyHashes (Some k)] s = Inr s \<and>
    xor_key (xor_key fp k) k = fp \<and>
    (js_index (hashes_wc hashes) 0 = Some k' \<and> hash hashes pos = Inr fp' \<longrightarrow>
       hash hashes (pos\<lparr>wc := (\<not> fst (wc pos), snd (wc pos))\<rparr>) = Inr (xor_key fp' k') \<and>
       Inr (xor_key (xor_key fp' k') k') = hash hashes pos)"
proof (intro conjI impI)
  show "seq [applyHashes (Some k), applyHashes (Some k)] s = Inr s"
    by (simp add: applyHashes_def xor.assoc)
  show "xor_key (xor_key fp k) k = fp"
    by (rule xor_key_twice)
next
  assume a: "js_index (hashes_wc hashes) 0 = Some k' \<and> hash hashes pos = Inr fp'"
  then show "hash hashes (pos\<lparr>wc := (\<not> fst (wc pos), snd (wc pos))\<rparr>) = Inr (xor_key fp' k')"
    by (simp add: hash_toggle_wc)
  from a show "Inr (xor_key (xor_key fp' k') k') = hash hashes pos"
    by (simp add: xor_key_twice)
qed

theorem xor_involution_witness:
  "js_index (hashes_wc (fst (hashes_init (\<lambda>n. word_of_nat (n * n + 7)) ''Kk''))) 0 =
     Some (82951, 83528) \<and>
   hash (fst (hashes_init (\<lambda>n. word_of_nat (n * n + 7)) ''Kk''))
     \<lparr>board = replicate 4 None @ [Some CHR ''K''] @ replicate 55 None @
        [Some CHR ''k''] @ replicate 3 None,
      turn = WHITE, wc = (True, False), bc = (False, True), ep = 20\<rparr> =
     Inr (93804, 92176) \<and>
   hash (fst (hashes_init (\<lambda>n. word_of_nat (n * n + 7)) ''Kk''))
     \<lparr>board = replicate 4 None @ [Some CHR ''K''] @ replicate 55 None @
        [Some CHR ''k''] @ replicate 3 None,
      turn = WHITE, wc = (False, False), bc = (False, True), ep = 20\<rparr> =
     Inr (xor_key (93804, 92176) (82951, 83528)) \<and>
   xor_key (xor_key (93804, 92176) (82951, 83528)) (82951, 83528) = (93804, 92176)"
proof -
  let ?pos = "\<lparr>board = replicate 4 None @ [Some CHR ''K''] @ replicate 55 None @
        [Some CHR ''k''] @ replicate 3 None,
      turn = WHITE, wc = (True, False), bc = (False, True), ep = 20\<rparr>"
  let ?g = "\<lambda>n. word_of_nat (n * n + 7) :: 32 word"
  let ?T = "fst (hashes_init ?g ''Kk'')"
  have k: "js_index (hashes_wc ?T) 0 = Some (82951, 83528)"
    by (simp add: js_index_def hashes_init_def init_piece_eq hashes_empty_def)
  have h: "hash ?T ?pos = Inr (93804, 92176)"
    by (simp add: hash_char applied_keys_def square_keys_def js_index_def js_rem_def
        hashes_init_def init_piece_eq makes_eq hashes_empty_def nth_append xor_key_def
        upt_rec [of _ "numeral _"])
  from xor_involution [of "(82951, 83528)"
      "\<lparr>st_hashes = ?T, st_pos = ?pos, low = 0, high = 0\<rparr>" "(93804, 92176)" ?T "(82951, 83528)" ?pos
      "(93804, 92176)"] k h
  have "hash ?T (?pos\<lparr>wc := (\<not> fst (wc ?pos), snd (wc ?pos))\<rparr>) =
      Inr (xor_key (93804, 92176) (82951, 83528))"
    and "xor_key (xor_key (93804, 92176) (82951, 83528)) (82951, 83528) = (93804 :: 32 word, 92176 :: 32 word)"
    by blast+
  with k h show ?thesis by simp
qed

text \<open>
  C8. With one table (one seed), two positions with the same squares, side to move,
  castling rights and en-passant value have the same result of \<^verbatim>\<open>hash\<close>, whatever
  else the two objects hold; and a call that returns leaves the table and the position
  as they were, its result being the two local variables.
\<close>

theorem hash_deterministic_pure:
  fixes p1 :: "('p, 'x) Position_scheme" and p2 :: "('p, 'y) Position_scheme"
    and pos :: "('p, 'z) Position_scheme"
  shows
   "(board p1 = board p2 \<and> turn p1 = turn p2 \<and> wc p1 = wc p2 \<and> bc p1 = bc p2 \<and>
     ep p1 = ep p2 \<longrightarrow>
       hash hashes p1 = hash hashes p2 \<and>
       hash (fst (hashes_init g pieces)) p1 = hash (fst (hashes_init g pieces)) p2) \<and>
    (hash_run hashes pos = Inr s \<longrightarrow>
       st_hashes s = hashes \<and> st_pos s = pos \<and> hash hashes pos = Inr (low s, high s))"
proof (intro conjI impI)
  assume "board p1 = board p2 \<and> turn p1 = turn p2 \<and> wc p1 = wc p2 \<and> bc p1 = bc p2 \<and>
     ep p1 = ep p2"
  then have "applied_keys h p1 = applied_keys h p2" for h :: "'p hashes"
    by (intro applied_keys_features) simp_all
  then show "hash hashes p1 = hash hashes p2"
    and "hash (fst (hashes_init g pieces)) p1 = hash (fst (hashes_init g pieces)) p2"
    by (simp_all add: hash_char)
next
  assume r: "hash_run hashes pos = Inr s"
  then show "st_hashes s = hashes" and "st_pos s = pos"
    by (auto simp: hash_run_char split: if_splits)
  from r show "hash hashes pos = Inr (low s, high s)"
    by (simp add: hash_def)
qed

theorem hash_deterministic_pure_witness:
  "hash (fst (hashes_init (\<lambda>n. word_of_nat (n * n + 7)) ''Kk''))
     \<lparr>board = replicate 4 None @ [Some CHR ''K''] @ replicate 55 None @
        [Some CHR ''k''] @ replicate 3 None,
      turn = WHITE, wc = (True, False), bc = (False, True), ep = 20\<rparr> =
   hash (fst (hashes_init (\<lambda>n. word_of_nat (n * n + 7)) ''Kk''))
     \<lparr>board = replicate 4 None @ [Some CHR ''K''] @ replicate 55 None @
        [Some CHR ''k''] @ replicate 3 None,
      turn = WHITE, wc = (True, False), bc = (False, True), ep = 20,
      \<dots> = [(12 :: nat, 28 :: nat), (52, 36)]\<rparr> \<and>
   hash_run (fst (hashes_init (\<lambda>n. word_of_nat (n * n + 7)) ''Kk''))
     \<lparr>board = replicate 4 None @ [Some CHR ''K''] @ replicate 55 None @
        [Some CHR ''k''] @ replicate 3 None,
      turn = WHITE, wc = (True, False), bc = (False, True), ep = 20\<rparr> =
     Inr \<lparr>st_hashes = fst (hashes_init (\<lambda>n. word_of_nat (n * n + 7)) ''Kk''),
          st_pos = \<lparr>board = replicate 4 None @ [Some CHR ''K''] @ replicate 55 None @
              [Some CHR ''k''] @ replicate 3 None,
            turn = WHITE, wc = (True, False), bc = (False, True), ep = 20\<rparr>,
          low = 93804, high = 92176\<rparr> \<and>
   hash (fst (hashes_init (\<lambda>n. word_of_nat (n * n + 7)) ''Kk''))
     \<lparr>board = replicate 4 None @ [Some CHR ''K''] @ replicate 55 None @
        [Some CHR ''k''] @ replicate 3 None,
      turn = WHITE, wc = (True, False), bc = (False, True), ep = 20\<rparr> =
     Inr (93804, 92176)"
proof -
  let ?p1 = "\<lparr>board = replicate 4 None @ [Some CHR ''K''] @ replicate 55 None @
        [Some CHR ''k''] @ replicate 3 None,
      turn = WHITE, wc = (True, False), bc = (False, True), ep = 20\<rparr>"
  let ?p2 = "\<lparr>board = replicate 4 None @ [Some CHR ''K''] @ replicate 55 None @
        [Some CHR ''k''] @ replicate 3 None,
      turn = WHITE, wc = (True, False), bc = (False, True), ep = 20,
      \<dots> = [(12 :: nat, 28 :: nat), (52, 36)]\<rparr>"
  let ?g = "\<lambda>n. word_of_nat (n * n + 7) :: 32 word"
  let ?T = "fst (hashes_init ?g ''Kk'')"
  let ?s = "\<lparr>st_hashes = ?T, st_pos = ?p1, low = 93804, high = 92176\<rparr>"
  have same: "board ?p1 = board ?p2 \<and> turn ?p1 = turn ?p2 \<and> wc ?p1 = wc ?p2 \<and>
      bc ?p1 = bc ?p2 \<and> ep ?p1 = ep ?p2"
    by simp
  have run: "hash_run ?T ?p1 = Inr ?s"
    by (simp add: hash_run_char applied_keys_def square_keys_def js_index_def js_rem_def
        hashes_init_def init_piece_eq makes_eq hashes_empty_def nth_append xor_key_def
        upt_rec [of _ "numeral _"])
  note inst = hash_deterministic_pure [of ?p1 ?p2 ?T ?g "''Kk''" ?p1 ?s]
  from inst same have eq: "hash ?T ?p1 = hash ?T ?p2" by blast
  from inst run have "hash ?T ?p1 = Inr (low ?s, high ?s)" by blast
  then have val: "hash ?T ?p1 = Inr (93804, 92176)" by simp
  from eq run val show ?thesis by blast
qed

end
